theory Spec2Isabelle
  imports Complex_Main "HOL-Library.Char_ord" "HOL-Library.List_Lexorder" "HOL-Library.AList"
    "HOL-Library.Multiset"
begin

section \<open>Strings\<close>

text \<open>
  A Go \<^verbatim>\<open>string\<close> is a sequence of bytes; it is modelled as \<^typ>\<open>string\<close>, one
  \<^typ>\<open>char\<close> per byte. \<^verbatim>\<open>slices.Sort\<close> and \<^verbatim>\<open>strings.Compare\<close> order strings
  bytewise and lexicographically, which is the order of \<^typ>\<open>char list\<close> here.
\<close>

text \<open>\<^verbatim>\<open>strings.HasPrefix(s, prefix)\<close>.\<close>

definition HasPrefix :: "string \<Rightarrow> string \<Rightarrow> bool" where
  "HasPrefix s pre = (take (length pre) s = pre)"

text \<open>\<^verbatim>\<open>strings.TrimPrefix(s, prefix)\<close>: \<^verbatim>\<open>s\<close> without the prefix, or \<^verbatim>\<open>s\<close> itself.\<close>

definition TrimPrefix :: "string \<Rightarrow> string \<Rightarrow> string" where
  "TrimPrefix s pre = (if HasPrefix s pre then drop (length pre) s else s)"

text \<open>\<^verbatim>\<open>strings.ReplaceAll(s, "_", " ")\<close>, the only replacement the package makes.\<close>

definition ReplaceAll_underscore :: "string \<Rightarrow> string" where
  "ReplaceAll_underscore s = map (\<lambda>c. if c = CHR ''_'' then CHR '' '' else c) s"

text \<open>
  \<^verbatim>\<open>strings.Split(s, "/")\<close>: the pieces between the slashes; the result is never
  empty (\<^verbatim>\<open>Split("", "/")\<close> is one empty piece).
\<close>

fun Split_slash :: "string \<Rightarrow> string list" where
  "Split_slash [] = [[]]"
| "Split_slash (c # cs) =
     (if c = CHR ''/'' then [] # Split_slash cs
      else (case Split_slash cs of
              [] \<Rightarrow> [[c]]
            | w # ws \<Rightarrow> (c # w) # ws))"

text \<open>
  The character classes of Go's \<^verbatim>\<open>regexp\<close> (RE2 syntax) are ASCII only:
  \<^verbatim>\<open>\d\<close> is \<^verbatim>\<open>[0-9]\<close> and \<^verbatim>\<open>\w\<close> is \<^verbatim>\<open>[0-9A-Za-z_]\<close>. Every byte of a
  non-ASCII rune is outside both classes.
\<close>

definition isDigit :: "char \<Rightarrow> bool" where
  "isDigit c = (c \<in> set ''0123456789'')"

definition isWordChar :: "char \<Rightarrow> bool" where
  "isWordChar c =
     (c \<in> set ''0123456789ABCDEFGHIJKLMNOPQRSTUVWXYZ_abcdefghijklmnopqrstuvwxyz'')"

text \<open>
  \<^verbatim>\<open>strings.ToLower\<close> on the bytes it is applied to: the words it receives consist of
  word characters, where it maps \<^verbatim>\<open>A-Z\<close> to \<^verbatim>\<open>a-z\<close> and keeps the rest.
\<close>

definition toLowerChar :: "char \<Rightarrow> char" where
  "toLowerChar c =
     (case map_of (zip ''ABCDEFGHIJKLMNOPQRSTUVWXYZ'' ''abcdefghijklmnopqrstuvwxyz'') c of
        None \<Rightarrow> c
      | Some l \<Rightarrow> l)"

definition ToLower :: "string \<Rightarrow> string" where
  "ToLower s = map toLowerChar s"

section \<open>Trigrams and the S\<o>rensen-Dice similarity\<close>

text \<open>
  \<^verbatim>\<open>regexp.MustCompile(`\W+`).Split(a, -1)\<close> on a non-empty \<^verbatim>\<open>a\<close>: the matches are the
  maximal runs of non-word characters, and the result holds the piece before each match
  and the piece after the last one. A string that starts (ends) with a non-word character
  therefore yields an empty first (last) piece.
\<close>

function splitNonWord :: "string \<Rightarrow> string list" where
  "splitNonWord s =
     (case dropWhile isWordChar s of
        [] \<Rightarrow> [takeWhile isWordChar s]
      | c # rest \<Rightarrow>
          takeWhile isWordChar s # splitNonWord (dropWhile (\<lambda>c. \<not> isWordChar c) rest))"
  by pat_completeness auto

lemma length_dropWhile_Cons_less:
  "dropWhile P s = c # rest \<Longrightarrow> length (dropWhile Q rest) < length s"
proof -
  assume h: "dropWhile P s = c # rest"
  have "length (dropWhile Q rest) \<le> length rest"
    by (rule length_dropWhile_le)
  also have "length rest < length (dropWhile P s)"
    using h by simp
  also have "length (dropWhile P s) \<le> length s"
    by (rule length_dropWhile_le)
  finally show ?thesis .
qed

termination splitNonWord
  by (relation "measure length") (auto dest: length_dropWhile_Cons_less)

declare splitNonWord.simps [simp del]

text \<open>
  The inner loop of \<^verbatim>\<open>TransformToUniqueTrigrams\<close>: \<^verbatim>\<open>n\<close> times, take
  \<^verbatim>\<open>padded[:3]\<close> and continue with \<^verbatim>\<open>padded[1:]\<close>.
\<close>

fun slideWindow :: "nat \<Rightarrow> string \<Rightarrow> string list" where
  "slideWindow 0 padded = []"
| "slideWindow (Suc n) padded = take 3 padded # slideWindow n (drop 1 padded)"

text \<open>One word: lower-cased, padded with two spaces before and one after.\<close>

definition wordTrigrams :: "string \<Rightarrow> string list" where
  "wordTrigrams word =
     (let w = ToLower word;
          padded = ''  '' @ w @ '' ''
      in slideWindow (1 + length w) padded)"

text \<open>
  \<^verbatim>\<open>TransformToUniqueTrigrams\<close>. The trigrams are the keys of a Go map, collected and
  sorted with \<^verbatim>\<open>slices.Sort\<close>: the distinct trigrams in ascending order.
\<close>

definition TransformToUniqueTrigrams :: "string \<Rightarrow> string list" where
  "TransformToUniqueTrigrams a =
     (if length a = 0 then []
      else sort (remdups (concat (map wordTrigrams (splitNonWord a)))))"

text \<open>
  A \<^verbatim>\<open>float64\<close> result of the scorer. The quotient of two non-negative integers is
  \<^verbatim>\<open>NaN\<close> for \<^verbatim>\<open>0/0\<close>, \<^verbatim>\<open>+Inf\<close> for \<^verbatim>\<open>n/0\<close> with \<^verbatim>\<open>n > 0\<close> (Go does not panic on a
  floating-point division by zero), and otherwise the \<^verbatim>\<open>float64\<close> nearest to the
  rational quotient, which \<open>Num\<close> stands for. The quotients \<open>0\<close> and \<open>1\<close> are
  represented exactly.
\<close>

datatype float64 = NaN | PosInf | Num rat

definition float64_quot :: "nat \<Rightarrow> nat \<Rightarrow> float64" where
  "float64_quot n d =
     (if d = 0 then (if n = 0 then NaN else PosInf)
      else Num (of_nat n / of_nat d))"

text \<open>
  \<^verbatim>\<open>TrigramSorensenDiceSimilarity\<close>: the lookup table is built from the trigrams of
  \<^verbatim>\<open>a\<close>, and the trigrams of \<^verbatim>\<open>b\<close> found in it are counted.
\<close>

definition intersectionCount :: "string list \<Rightarrow> string list \<Rightarrow> nat" where
  "intersectionCount aTrigrams bTrigrams =
     length (filter (\<lambda>bT. bT \<in> set aTrigrams) bTrigrams)"

definition TrigramSorensenDiceSimilarity :: "string \<Rightarrow> string \<Rightarrow> float64" where
  "TrigramSorensenDiceSimilarity a b =
     (let aTrigrams = TransformToUniqueTrigrams a;
          bTrigrams = TransformToUniqueTrigrams b;
          aCount = length aTrigrams;
          bCount = length bTrigrams
      in float64_quot (2 * intersectionCount aTrigrams bTrigrams) (aCount + bCount))"

section \<open>Records of the search and navigation handlers\<close>

text \<open>
  \<^verbatim>\<open>models.MarkdownMeta\<close> and \<^verbatim>\<open>models.MarkdownContent\<close>, with the fields the two
  handlers read.
\<close>

record MarkdownMeta =
  Name :: string
  Path :: string


section \<open>Ranking of search matches\<close>











section \<open>Navigation trees\<close>

text \<open>
  \<^verbatim>\<open>NavigationItem\<close>. \<^verbatim>\<open>uuidv7.New()\<close> yields a fresh identifier at every call; the
  identifiers are modelled as the numbers of a counter that the tree builder threads
  through. A node is a heap object that the program identifies by its uuid; here it is a
  value. The \<^verbatim>\<open>Parent\<close> pointer is not a field of the value: see \<open>NavItemRef\<close>.
\<close>

datatype NavigationItem =
  NavigationItem (Uuid: nat) (Href: string) (Label: string) (Children: "NavigationItem list")

text \<open>The assignment \<^verbatim>\<open>n.Children = cs\<close>.\<close>

definition setChildren :: "NavigationItem \<Rightarrow> NavigationItem list \<Rightarrow> NavigationItem" where
  "setChildren n cs = NavigationItem (Uuid n) (Href n) (Label n) cs"

text \<open>
  A \<^verbatim>\<open>*NavigationItem\<close> while a branch is built: the node pointed to and the chain of
  its \<^verbatim>\<open>Parent\<close> pointers, nearest parent first. A parent in the chain is held without
  the child below it; the child is its last child (\<^verbatim>\<open>createNavItemTree\<close> appends it
  when it creates it) and is put there when \<^verbatim>\<open>findRoot\<close> walks up.
\<close>

datatype NavItemRef = NavItemRef (node: NavigationItem) (parents: "NavigationItem list")

text \<open>What the service writes to its logger.\<close>

datatype logEntry = LogError string | LogDebug string

text \<open>
  \<^verbatim>\<open>createNavItemTree\<close>: one new child per remaining path element, each the parent of
  the next; the result points to the bottom-most node. The counter \<open>u\<close> is the next
  fresh uuid.
\<close>

fun createNavItemTree :: "string list \<Rightarrow> NavItemRef \<Rightarrow> nat \<Rightarrow> NavItemRef \<times> nat" where
  "createNavItemTree [] navItem u = (navItem, u)"
| "createNavItemTree (p # ps) navItem u =
     createNavItemTree ps
       (NavItemRef (NavigationItem u p (ReplaceAll_underscore p) []) (node navItem # parents navItem))
       (Suc u)"

text \<open>\<^verbatim>\<open>findRoot\<close>: follow the parent pointers up to the node without a parent.\<close>

function findRoot :: "NavItemRef \<Rightarrow> NavigationItem" where
  "findRoot (NavItemRef n []) = n"
| "findRoot (NavItemRef n (p # ps)) = findRoot (NavItemRef (setChildren p (Children p @ [n])) ps)"
  by pat_completeness auto
termination findRoot
  by (relation "measure (\<lambda>r. length (parents r))") auto

text \<open>
  The state of the loop over \<^verbatim>\<open>markdownMetas\<close> in \<^verbatim>\<open>BuildNavigationItemTrees\<close>:
  the roots collected so far, the next fresh uuid and the log.
\<close>

record buildState =
  rootNavigationItems :: "NavigationItem list"
  nextUuid :: nat
  logged :: "logEntry list"

text \<open>
  One iteration of that loop. Every \<^verbatim>\<open>continue\<close> of the source is a branch that
  returns the state with at most a log entry added. \<^verbatim>\<open>strings.Split\<close> never returns
  an empty slice, so \<^verbatim>\<open>pathElements[0]\<close> exists and the first case of the split is
  never taken.
\<close>

definition processMeta :: "buildState \<Rightarrow> MarkdownMeta \<Rightarrow> buildState" where
  "processMeta st v =
     (if length (Path v) \<le> 0 then
        st\<lparr>logged := logged st @ [LogError (''markdown meta '' @ Name v @ '' has empty path'')]\<rparr>
      else
        (case Split_slash (Path v) of
           [] \<Rightarrow> st
         | first # pathElements \<Rightarrow>
             if \<not> HasPrefix first ''markdowns'' then st
             else
               (case pathElements of
                  [] \<Rightarrow>
                    if Name v = ''Landing-Page'' then
                      st\<lparr>logged := logged st @
                          [LogDebug (''skip processing top-level element: '' @ Name v)]\<rparr>
                    else
                      st\<lparr>rootNavigationItems := rootNavigationItems st @
                            [NavigationItem (nextUuid st) (Name v) (ReplaceAll_underscore (Name v)) []],
                          nextUuid := Suc (nextUuid st),
                          logged := logged st @
                            [LogDebug (''processing top-level element w/o children: '' @ Name v)]\<rparr>
                | folder # below \<Rightarrow>
                    (let parent = NavigationItem (nextUuid st) folder (ReplaceAll_underscore folder) []
                     in case createNavItemTree below (NavItemRef parent []) (Suc (nextUuid st)) of
                          (bottomToRootTree, u) \<Rightarrow>
                            (let bottomMostNavItem =
                                   NavigationItem u (Name v) (ReplaceAll_underscore (Name v)) [];
                                 bottom = NavItemRef
                                   (setChildren (node bottomToRootTree)
                                      (Children (node bottomToRootTree) @ [bottomMostNavItem]))
                                   (parents bottomToRootTree);
                                 rootItem = findRoot bottom
                             in st\<lparr>rootNavigationItems := rootNavigationItems st @ [rootItem],
                                   nextUuid := Suc u\<rparr>)))))"

text \<open>
  \<^verbatim>\<open>linkChildrenWithTheSameParent\<close>. Its two Go maps are association lists. The key
  \<^verbatim>\<open>Href + ":" + Uuid\<close> of \<^verbatim>\<open>treesByHrefAndUuid\<close> is the pair of both (a uuid has a
  fixed length and no colon, so the string determines the pair).
\<close>

type_synonym treeKey = "string \<times> nat"

definition SliceToMap :: "NavigationItem list \<Rightarrow> (treeKey \<times> NavigationItem) list" where
  "SliceToMap s = foldl (\<lambda>m v. AList.update (Href v, Uuid v) v m) [] s"

text \<open>The loop that fills \<^verbatim>\<open>uuidsByHref\<close>: per href, the uuids in slice order.\<close>

definition groupUuidsByHref :: "NavigationItem list \<Rightarrow> (string \<times> nat list) list" where
  "groupUuidsByHref s =
     foldl (\<lambda>m v. case map_of m (Href v) of
                     Some uuids \<Rightarrow> AList.update (Href v) (uuids @ [Uuid v]) m
                   | None \<Rightarrow> AList.update (Href v) [Uuid v] m) [] s"

text \<open>
  The inner loop over the uuids recorded for \<^verbatim>\<open>self.Href\<close>: a twin found in the map
  hands its children to \<^verbatim>\<open>self\<close> and is deleted from the map. When the key is not in
  the map the source logs an error and continues with the next uuid; that case needs a
  uuid listed twice and its log entry is not part of the model.
\<close>

fun linkTwins ::
  "NavigationItem \<Rightarrow> nat list \<Rightarrow> (treeKey \<times> NavigationItem) list \<Rightarrow>
   NavigationItem \<times> (treeKey \<times> NavigationItem) list" where
  "linkTwins self [] trees = (self, trees)"
| "linkTwins self (uuid # uuids) trees =
     (if Uuid self = uuid then linkTwins self uuids trees
      else
        (case map_of trees (Href self, uuid) of
           None \<Rightarrow> linkTwins self uuids trees
         | Some twin \<Rightarrow>
             linkTwins (setChildren self (Children self @ Children twin)) uuids
               (AList.delete (Href self, uuid) trees)))"

text \<open>
  \<^verbatim>\<open>self\<close> is a pointer that \<^verbatim>\<open>treesByHrefAndUuid\<close> holds under the key of
  \<^verbatim>\<open>self\<close>, so the children appended to \<^verbatim>\<open>self\<close> are seen through the map: the
  entry that holds \<^verbatim>\<open>self\<close> is replaced by the updated node. The map holds
  \<^verbatim>\<open>self\<close> under that key whenever the nodes of the slice have distinct uuids, as the
  nodes of the builder have (\<open>mergeSameHref_set\<close> below states what the loop then
  computes); were the key shared with another node, the map would hold that other object
  and would not see the update.
\<close>

definition storeSelf ::
  "NavigationItem \<Rightarrow> NavigationItem \<Rightarrow> (treeKey \<times> NavigationItem) list \<Rightarrow>
   (treeKey \<times> NavigationItem) list" where
  "storeSelf self self' trees =
     (if map_of trees (Href self, Uuid self) = Some self
      then AList.update (Href self, Uuid self) self' trees
      else trees)"

text \<open>The outer loop over \<^verbatim>\<open>navigationItemTrees\<close>.\<close>

fun linkLoop ::
  "NavigationItem list \<Rightarrow> (treeKey \<times> NavigationItem) list \<Rightarrow> (string \<times> nat list) list \<Rightarrow>
   (treeKey \<times> NavigationItem) list" where
  "linkLoop [] trees uuidsByHref = trees"
| "linkLoop (self # rest) trees uuidsByHref =
     (case map_of uuidsByHref (Href self) of
        None \<Rightarrow> linkLoop rest trees uuidsByHref
      | Some uuids \<Rightarrow>
          (case linkTwins self uuids trees of
             (self', trees') \<Rightarrow>
               linkLoop rest (storeSelf self self' trees')
                 (AList.delete (Href self) uuidsByHref)))"

text \<open>
  One level of the merge: the values left in the map, sorted by
  \<^verbatim>\<open>strings.Compare\<close> on \<^verbatim>\<open>Href\<close>. Go iterates over a map in no fixed order and
  \<^verbatim>\<open>sort.Slice\<close> is not stable; the hrefs left in the map are pairwise distinct
  (\<open>mergeSameHref_distinct\<close> below), so the sorted slice is the same for every
  iteration order.
\<close>

definition mergeSameHref :: "NavigationItem list \<Rightarrow> NavigationItem list" where
  "mergeSameHref navigationItemTrees =
     sort_key Href
       (map snd (linkLoop navigationItemTrees (SliceToMap navigationItemTrees)
                   (groupUuidsByHref navigationItemTrees)))"

subsection \<open>Termination of the merge\<close>

text \<open>
  The recursion into the children of the merged nodes ends because one level of the
  merge never adds a node: the nodes stored in the map never count more than the nodes of
  the input.
\<close>

fun nodeCount :: "NavigationItem \<Rightarrow> nat" where
  "nodeCount (NavigationItem u h l cs) = Suc (sum_list (map nodeCount cs))"

definition forestCount :: "NavigationItem list \<Rightarrow> nat" where
  "forestCount ts = sum_list (map nodeCount ts)"

definition storedCount :: "('k \<times> NavigationItem) list \<Rightarrow> nat" where
  "storedCount m = sum_list (map (\<lambda>p. nodeCount (snd p)) m)"

lemma storedCount_delete_le: "storedCount (AList.delete k m) \<le> storedCount m"
  by (induction m) (auto simp: storedCount_def)

lemma storedCount_delete:
  "map_of m k = Some v \<Longrightarrow> storedCount (AList.delete k m) + nodeCount v \<le> storedCount m"
proof (induction m)
  case Nil
  then show ?case by simp
next
  case (Cons p m)
  show ?case
  proof (cases "fst p = k")
    case True
    then have "snd p = v" using Cons.prems by (cases p) auto
    then show ?thesis
      using True storedCount_delete_le [of k m] by (cases p) (auto simp: storedCount_def)
  next
    case False
    then have "map_of m k = Some v" using Cons.prems by (cases p) auto
    then show ?thesis
      using False Cons.IH by (cases p) (auto simp: storedCount_def)
  qed
qed

lemma storedCount_update:
  "map_of m k = Some v \<Longrightarrow>
   storedCount (AList.update k v' m) + nodeCount v = storedCount m + nodeCount v'"
  by (induction m) (auto simp: storedCount_def)

lemma storedCount_update_le:
  "storedCount (AList.update k v m) \<le> storedCount m + nodeCount v"
  by (induction m) (auto simp: storedCount_def)

lemma nodeCount_setChildren:
  "nodeCount (setChildren n cs) = Suc (forestCount cs)"
  by (simp add: setChildren_def forestCount_def)

lemma nodeCount_Children: "nodeCount n = Suc (forestCount (Children n))"
  by (cases n) (simp add: forestCount_def)

lemma forestCount_append: "forestCount (xs @ ys) = forestCount xs + forestCount ys"
  by (simp add: forestCount_def)

lemma linkTwins_count:
  "linkTwins self uuids m = (self', m') \<Longrightarrow>
   nodeCount self' + storedCount m' \<le> nodeCount self + storedCount m"
proof (induction uuids arbitrary: self m)
  case Nil
  then show ?case by simp
next
  case (Cons uuid uuids)
  show ?case
  proof (cases "Uuid self = uuid")
    case True
    then have "linkTwins self uuids m = (self', m')" using Cons.prems by simp
    then show ?thesis by (rule Cons.IH)
  next
    case False
    show ?thesis
    proof (cases "map_of m (Href self, uuid)")
      case None
      then have "linkTwins self uuids m = (self', m')" using False Cons.prems by simp
      then show ?thesis by (rule Cons.IH)
    next
      case (Some twin)
      let ?s = "setChildren self (Children self @ Children twin)"
      have "linkTwins ?s uuids (AList.delete (Href self, uuid) m) = (self', m')"
        using Cons.prems False Some by simp
      from Cons.IH [OF this]
      have "nodeCount self' + storedCount m' \<le>
            nodeCount ?s + storedCount (AList.delete (Href self, uuid) m)" .
      moreover have "nodeCount ?s + nodeCount twin = nodeCount self + nodeCount twin + forestCount (Children twin)"
        by (simp add: nodeCount_setChildren forestCount_append nodeCount_Children [of self])
      moreover have "storedCount (AList.delete (Href self, uuid) m) + nodeCount twin \<le> storedCount m"
        using Some by (rule storedCount_delete)
      moreover have "forestCount (Children twin) < nodeCount twin"
        by (simp add: nodeCount_Children [of twin])
      ultimately show ?thesis by linarith
    qed
  qed
qed

lemma setChildren_sel [simp]:
  "Uuid (setChildren n cs) = Uuid n" "Href (setChildren n cs) = Href n"
  "Label (setChildren n cs) = Label n" "Children (setChildren n cs) = cs"
  by (simp_all add: setChildren_def)

lemma linkTwins_self_entry:
  "linkTwins self uuids m = (self', m') \<Longrightarrow>
   map_of m' (Href self, Uuid self) = map_of m (Href self, Uuid self)"
  by (induction self uuids m rule: linkTwins.induct)
     (auto split: if_splits option.splits simp: AList.delete_conv')

lemma linkTwins_stored_le:
  "linkTwins self uuids m = (self', m') \<Longrightarrow> storedCount m' \<le> storedCount m"
proof (induction self uuids m rule: linkTwins.induct)
  case (1 self trees)
  then show ?case by simp
next
  case (2 self uuid uuids trees)
  then show ?case
    using storedCount_delete_le [of "(Href self, uuid)" trees]
    by (auto split: if_splits option.splits intro: order_trans)
qed

lemma storeSelf_count:
  assumes "linkTwins self uuids m = (self', m')"
  shows "storedCount (storeSelf self self' m') \<le> storedCount m"
proof (cases "map_of m' (Href self, Uuid self) = Some self")
  case True
  from storedCount_update [OF True, of self']
  have "storedCount (storeSelf self self' m') + nodeCount self = storedCount m' + nodeCount self'"
    using True by (simp add: storeSelf_def)
  then show ?thesis using linkTwins_count [OF assms] by linarith
next
  case False
  then show ?thesis using linkTwins_stored_le [OF assms] by (simp add: storeSelf_def)
qed

lemma linkLoop_count: "storedCount (linkLoop ts m um) \<le> storedCount m"
proof (induction ts arbitrary: m um)
  case Nil
  then show ?case by simp
next
  case (Cons self rest)
  show ?case
  proof (cases "map_of um (Href self)")
    case None
    then show ?thesis using Cons.IH by simp
  next
    case (Some uuids)
    obtain self' m' where lt: "linkTwins self uuids m = (self', m')"
      by (cases "linkTwins self uuids m") auto
    have "storedCount (linkLoop rest (storeSelf self self' m') (AList.delete (Href self) um))
          \<le> storedCount (storeSelf self self' m')"
      by (rule Cons.IH)
    also have "\<dots> \<le> storedCount m"
      using lt by (rule storeSelf_count)
    finally show ?thesis using Some lt by simp
  qed
qed

lemma foldl_update_count:
  "storedCount (foldl (\<lambda>m v. AList.update (f v) v m) m0 ts) \<le> storedCount m0 + forestCount ts"
proof (induction ts arbitrary: m0)
  case Nil
  then show ?case by (simp add: forestCount_def)
next
  case (Cons t ts)
  have "storedCount (foldl (\<lambda>m v. AList.update (f v) v m) (AList.update (f t) t m0) ts)
        \<le> storedCount (AList.update (f t) t m0) + forestCount ts"
    by (rule Cons.IH)
  also have "\<dots> \<le> storedCount m0 + nodeCount t + forestCount ts"
    using storedCount_update_le [of "f t" t m0] by simp
  finally show ?case by (simp add: forestCount_def)
qed

lemma SliceToMap_count: "storedCount (SliceToMap ts) \<le> forestCount ts"
  using foldl_update_count [of "\<lambda>v. (Href v, Uuid v)" "[]" ts]
  by (simp add: SliceToMap_def storedCount_def)

lemma stored_member_le: "p \<in> set m \<Longrightarrow> nodeCount (snd p) \<le> storedCount m"
  by (induction m) (auto simp: storedCount_def)

lemma mergeSameHref_count:
  assumes "t \<in> set (mergeSameHref ts)"
  shows "nodeCount t \<le> forestCount ts"
proof -
  let ?m = "linkLoop ts (SliceToMap ts) (groupUuidsByHref ts)"
  obtain p where "p \<in> set ?m" "t = snd p"
    using assms by (auto simp: mergeSameHref_def)
  then have "nodeCount t \<le> storedCount ?m"
    using stored_member_le by blast
  also have "\<dots> \<le> storedCount (SliceToMap ts)"
    by (rule linkLoop_count)
  also have "\<dots> \<le> forestCount ts"
    by (rule SliceToMap_count)
  finally show ?thesis .
qed

text \<open>
  \<^verbatim>\<open>linkChildrenWithTheSameParent\<close>: an empty slice is returned as it is; otherwise
  one level is merged and every surviving node gets its children merged in turn.
\<close>

function linkChildrenWithTheSameParent :: "NavigationItem list \<Rightarrow> NavigationItem list" where
  "linkChildrenWithTheSameParent navigationItemTrees =
     (if length navigationItemTrees = 0 then navigationItemTrees
      else map (\<lambda>t. setChildren t (linkChildrenWithTheSameParent (Children t)))
             (mergeSameHref navigationItemTrees))"
  by pat_completeness auto
termination linkChildrenWithTheSameParent
proof (relation "measure forestCount")
  show "wf (measure forestCount)" by simp
next
  fix navigationItemTrees :: "NavigationItem list" and t
  assume "t \<in> set (mergeSameHref navigationItemTrees)"
  then have "nodeCount t \<le> forestCount navigationItemTrees"
    by (rule mergeSameHref_count)
  then show "(Children t, navigationItemTrees) \<in> measure forestCount"
    by (simp add: nodeCount_Children [of t])
qed

declare linkChildrenWithTheSameParent.simps [simp del]

subsection \<open>Hidden roots, collation and numeric prefixes\<close>

text \<open>
  The regular expressions of the service: \<^verbatim>\<open>^\.\<close> and \<^verbatim>\<open>^\d+\<close> with
  \<^verbatim>\<open>MatchString\<close>, and \<^verbatim>\<open>FindString\<close> for the latter (the leading run of digits).
\<close>

definition MatchDot :: "string \<Rightarrow> bool" where
  "MatchDot s = (case s of [] \<Rightarrow> False | c # _ \<Rightarrow> c = CHR ''.'')"

definition MatchDigits :: "string \<Rightarrow> bool" where
  "MatchDigits s = (case s of [] \<Rightarrow> False | c # _ \<Rightarrow> isDigit c)"

definition FindDigits :: "string \<Rightarrow> string" where
  "FindDigits s = takeWhile isDigit s"

text \<open>
  \<^verbatim>\<open>removeDotPrefixedRoots\<close>. Its pattern is a constant that compiles, so the
  \<^verbatim>\<open>nil\<close> return for a compile error is never taken and the caller always continues
  with the filtered slice.
\<close>

definition removeDotPrefixedRoots :: "NavigationItem list \<Rightarrow> NavigationItem list" where
  "removeDotPrefixedRoots rootItems =
     filter (\<lambda>v. \<not> MatchDot (Href v)) rootItems"

text \<open>
  \<^verbatim>\<open>Collator.Sort\<close> on an \<^verbatim>\<open>itemTreesLister\<close>. The collator is a field of the
  service; it computes a collation key from the bytes of each \<^verbatim>\<open>Href\<close> and sorts by
  bytewise comparison of the keys. The key function is the parameter \<open>collationKey\<close>.
  The library's sort is not stable: items with equal keys may come in any order, where
  this model keeps their order.
\<close>

definition collatorSort :: "(string \<Rightarrow> string) \<Rightarrow> NavigationItem list \<Rightarrow> NavigationItem list" where
  "collatorSort collationKey itemTrees = sort_key (\<lambda>v. collationKey (Href v)) itemTrees"

text \<open>\<^verbatim>\<open>removeNumberPrefixFromRoots\<close>: the loop body, then the loop.\<close>

definition removeNumberPrefixFromRoot :: "NavigationItem \<Rightarrow> NavigationItem \<times> logEntry list" where
  "removeNumberPrefixFromRoot r =
     (let hasChildren = (length (Children r) > 0);
          isPrefixedHref = MatchDigits (Href r);
          isPrefixedLabel = MatchDigits (Label r)
      in if hasChildren \<and> isPrefixedHref \<and> isPrefixedLabel then
           (let prefix = FindDigits (Href r)
            in (NavigationItem (Uuid r) (TrimPrefix (Href r) (prefix @ ''_''))
                  (TrimPrefix (Label r) (prefix @ '' '')) (Children r), []))
         else if \<not> hasChildren \<and> isPrefixedHref \<and> isPrefixedLabel then
           (let prefix = FindDigits (Href r)
            in (NavigationItem (Uuid r) (Href r)
                  (TrimPrefix (Label r) (prefix @ '' '')) (Children r), []))
         else if isPrefixedHref \<noteq> isPrefixedLabel then
           (r, [LogError (''Href ('' @ Href r @ '') and Label ('' @ Label r @
                          '') differ, but should not (except the separator)''),
                LogError ''a bug in the logic was detected''])
         else (r, []))"

definition removeNumberPrefixFromRoots ::
  "NavigationItem list \<Rightarrow> NavigationItem list \<times> logEntry list" where
  "removeNumberPrefixFromRoots rootItems =
     (map (\<lambda>r. fst (removeNumberPrefixFromRoot r)) rootItems,
      concat (map (\<lambda>r. snd (removeNumberPrefixFromRoot r)) rootItems))"

text \<open>
  \<^verbatim>\<open>BuildNavigationItemTrees\<close>, stage by stage: the loop over the records, the merge,
  the hidden roots, the sort of the roots, the numeric prefixes. The function returns the
  forest; \<open>BuildNavigationItemTrees_log\<close> is what the loop and the normalizer write to
  the logger on the way.
\<close>

definition initialState :: buildState where
  "initialState = \<lparr>rootNavigationItems = [], nextUuid = 0, logged = []\<rparr>"

definition collectRoots :: "MarkdownMeta list \<Rightarrow> buildState" where
  "collectRoots markdownMetas = foldl processMeta initialState markdownMetas"

definition mergedRoots :: "MarkdownMeta list \<Rightarrow> NavigationItem list" where
  "mergedRoots markdownMetas =
     linkChildrenWithTheSameParent (rootNavigationItems (collectRoots markdownMetas))"

definition sortedVisibleRoots :: "(string \<Rightarrow> string) \<Rightarrow> MarkdownMeta list \<Rightarrow> NavigationItem list" where
  "sortedVisibleRoots collationKey markdownMetas =
     collatorSort collationKey (removeDotPrefixedRoots (mergedRoots markdownMetas))"

definition BuildNavigationItemTrees ::
  "(string \<Rightarrow> string) \<Rightarrow> MarkdownMeta list \<Rightarrow> NavigationItem list" where
  "BuildNavigationItemTrees collationKey markdownMetas =
     fst (removeNumberPrefixFromRoots (sortedVisibleRoots collationKey markdownMetas))"

definition BuildNavigationItemTrees_log ::
  "(string \<Rightarrow> string) \<Rightarrow> MarkdownMeta list \<Rightarrow> logEntry list" where
  "BuildNavigationItemTrees_log collationKey markdownMetas =
     logged (collectRoots markdownMetas) @
     snd (removeNumberPrefixFromRoots (sortedVisibleRoots collationKey markdownMetas))"

section \<open>Predicates of the properties\<close>

text \<open>
  Two states of the loop that differ at most in the log. The loop never reads the log,
  so a record that changes nothing else can be left out of the input without changing the
  forest.
\<close>

definition sameTrees :: "buildState \<Rightarrow> buildState \<Rightarrow> bool" where
  "sameTrees st st' =
     (rootNavigationItems st = rootNavigationItems st' \<and> nextUuid st = nextUuid st')"

text \<open>
  The hrefs of the children of a node are pairwise distinct, and so it is for every node
  below it, at every depth.
\<close>

fun uniqueSiblingHrefs :: "NavigationItem \<Rightarrow> bool" where
  "uniqueSiblingHrefs (NavigationItem u h l cs) =
     (distinct (map Href cs) \<and> (\<forall>c \<in> set cs. uniqueSiblingHrefs c))"

text \<open>
  The children of a node are in ascending byte order of their hrefs, and so it is for
  every node below it, at every depth.
\<close>

fun childrenByteOrdered :: "NavigationItem \<Rightarrow> bool" where
  "childrenByteOrdered (NavigationItem u h l cs) =
     (sorted (map Href cs) \<and> (\<forall>c \<in> set cs. childrenByteOrdered c))"

text \<open>
  Every node is created with the label \<^verbatim>\<open>strings.ReplaceAll(href, "_", " ")\<close>, and
  the merge changes neither href nor label: the roots that reach the normalizer still have
  that label.
\<close>

definition labelled :: "NavigationItem \<Rightarrow> bool" where
  "labelled n = (Label n = ReplaceAll_underscore (Href n))"

text \<open>
  For the merge of one level: the keys that the inner loop removes for \<open>self\<close>, and
  the invariant of the outer loop. The keys of the tree map are distinct, every node is
  stored under its own href, and two nodes with one href are both still listed in
  \<^verbatim>\<open>uuidsByHref\<close> under that href.
\<close>

definition twinKeys :: "NavigationItem \<Rightarrow> nat list \<Rightarrow> treeKey set" where
  "twinKeys self uuids = {(Href self, u) | u. u \<in> set uuids \<and> u \<noteq> Uuid self}"

definition mergeInv :: "(treeKey \<times> NavigationItem) list \<Rightarrow> (string \<times> nat list) list \<Rightarrow> bool" where
  "mergeInv m um =
     (distinct (map fst m) \<and>
      (\<forall>h u v. map_of m (h, u) = Some v \<longrightarrow> Href v = h) \<and>
      (\<forall>h u u' v v'. map_of m (h, u) = Some v \<and> map_of m (h, u') = Some v' \<and> u \<noteq> u' \<longrightarrow>
         (\<exists>us. map_of um h = Some us \<and> u \<in> set us \<and> u' \<in> set us)))"

text \<open>
  For the result of one level of the merge: the nodes of a slice with a given href, in
  slice order; a node with the children of its whole group; and the invariant of the
  outer loop when the processed part of the slice is \<open>pre\<close>. Under the invariant the
  hrefs of \<open>pre\<close> are no longer in \<^verbatim>\<open>uuidsByHref\<close>, and the tree map holds
  every node of an unprocessed href as it was, the first node of every processed href with
  the children of its group, and no other node.
\<close>

definition hrefGroup :: "NavigationItem list \<Rightarrow> string \<Rightarrow> NavigationItem list" where
  "hrefGroup ts h = filter (\<lambda>v. Href v = h) ts"

definition mergedNode :: "NavigationItem list \<Rightarrow> NavigationItem \<Rightarrow> NavigationItem" where
  "mergedNode ts s = setChildren s (concat (map Children (hrefGroup ts (Href s))))"

definition levelInv ::
  "NavigationItem list \<Rightarrow> NavigationItem list \<Rightarrow> (treeKey \<times> NavigationItem) list \<Rightarrow>
   (string \<times> nat list) list \<Rightarrow> bool" where
  "levelInv ts pre m um =
     ((\<forall>h. map_of um h =
          (if h \<in> Href ` set ts \<and> h \<notin> Href ` set pre
           then Some (map Uuid (hrefGroup ts h)) else None)) \<and>
      (\<forall>s \<in> set ts. map_of m (Href s, Uuid s) =
          (if Href s \<in> Href ` set pre
           then (if hd (hrefGroup ts (Href s)) = s
                 then Some (mergedNode ts s) else None)
           else Some s)) \<and>
      (\<forall>k v. map_of m k = Some v \<longrightarrow> k \<in> (\<lambda>s. (Href s, Uuid s)) ` set ts))"

section \<open>Properties of the scorer\<close>

lemma splitNonWord_not_Nil: "splitNonWord s \<noteq> []"
  by (subst splitNonWord.simps) (simp split: list.split)

lemma wordTrigrams_not_Nil: "wordTrigrams w \<noteq> []"
  by (simp add: wordTrigrams_def Let_def)

lemma TransformToUniqueTrigrams_not_Nil:
  assumes "a \<noteq> []"
  shows "TransformToUniqueTrigrams a \<noteq> []"
proof -
  obtain w ws where "splitNonWord a = w # ws"
    using splitNonWord_not_Nil [of a] by (cases "splitNonWord a") auto
  then have "concat (map wordTrigrams (splitNonWord a)) \<noteq> []"
    using wordTrigrams_not_Nil [of w] by simp
  then have "set (sort (remdups (concat (map wordTrigrams (splitNonWord a))))) \<noteq> {}"
    by simp
  then have "sort (remdups (concat (map wordTrigrams (splitNonWord a)))) \<noteq> []"
    by (simp only: set_empty not_False_eq_True)
  then show ?thesis
    using assms by (simp add: TransformToUniqueTrigrams_def)
qed

lemma splitNonWord_no_word_chars:
  assumes "s \<noteq> []" and "\<forall>c \<in> set s. \<not> isWordChar c"
  shows "splitNonWord s = [[], []]"
proof -
  obtain c rest where s: "s = c # rest"
    using assms(1) by (cases s) auto
  have c: "\<not> isWordChar c" and rest: "\<forall>x \<in> set rest. \<not> isWordChar x"
    using assms(2) s by auto
  have d: "dropWhile (\<lambda>c. \<not> isWordChar c) rest = []"
    using rest by simp
  have e: "splitNonWord [] = [[]]"
    by (subst splitNonWord.simps) simp
  show ?thesis
    by (subst splitNonWord.simps) (simp add: s c d e)
qed

lemma wordTrigrams_empty: "wordTrigrams [] = [''   '']"
  by (simp add: wordTrigrams_def ToLower_def)

lemma TransformToUniqueTrigrams_no_word_chars:
  assumes "s \<noteq> []" and "\<forall>c \<in> set s. \<not> isWordChar c"
  shows "TransformToUniqueTrigrams s = [''   '']"
  using assms
  by (simp add: TransformToUniqueTrigrams_def splitNonWord_no_word_chars wordTrigrams_empty)

text \<open>
  The part of the edge policy that the scorer meets: one empty operand against a
  non-empty one scores exactly \<open>0\<close>, in either argument order.
\<close>

lemma similarity_empty_right:
  assumes "s \<noteq> []"
  shows "TrigramSorensenDiceSimilarity s [] = Num 0"
  using TransformToUniqueTrigrams_not_Nil [OF assms]
  by (simp add: TrigramSorensenDiceSimilarity_def TransformToUniqueTrigrams_def
      intersectionCount_def float64_quot_def)

lemma similarity_empty_left:
  assumes "s \<noteq> []"
  shows "TrigramSorensenDiceSimilarity [] s = Num 0"
  using TransformToUniqueTrigrams_not_Nil [OF assms]
  by (simp add: TrigramSorensenDiceSimilarity_def TransformToUniqueTrigrams_def
      intersectionCount_def float64_quot_def)

text \<open>
  C1. The claim: two empty strings score \<open>0\<close>, never \<^verbatim>\<open>NaN\<close>. The scorer divides
  \<open>2 * 0\<close> by \<open>0 + 0\<close> without a guard, so on two empty strings its result is
  \<^verbatim>\<open>NaN\<close>.
\<close>

theorem similarity_both_empty_is_NaN:
  "TrigramSorensenDiceSimilarity [] [] = NaN"
  by (simp add: TrigramSorensenDiceSimilarity_def TransformToUniqueTrigrams_def
      intersectionCount_def float64_quot_def)

text \<open>
  C10. A non-empty string without a word character yields exactly one trigram, three
  spaces; two such strings score \<open>1\<close>.
\<close>

theorem no_word_chars_single_trigram:
  assumes "s \<noteq> []" and "\<forall>c \<in> set s. \<not> isWordChar c"
    and "t \<noteq> []" and "\<forall>c \<in> set t. \<not> isWordChar c"
  shows "TransformToUniqueTrigrams s = [''   ''] \<and>
         TrigramSorensenDiceSimilarity s t = Num 1"
  using assms
  by (simp add: TrigramSorensenDiceSimilarity_def TransformToUniqueTrigrams_no_word_chars
      intersectionCount_def float64_quot_def)

theorem no_word_chars_single_trigram_witness:
  "TransformToUniqueTrigrams ''!!!'' = [''   ''] \<and>
   TrigramSorensenDiceSimilarity ''!!!'' ''?- '' = Num 1"
  using no_word_chars_single_trigram [of "''!!!''" "''?- ''"]
  by (simp add: isWordChar_def)

section \<open>Properties of the ranking\<close>











section \<open>Properties of the tree builder\<close>

subsection \<open>Records that the loop skips\<close>

lemma Split_slash_not_Nil: "Split_slash s \<noteq> []"
  by (induction s) (auto split: list.splits)

lemma processMeta_empty_path:
  "Path v = [] \<Longrightarrow>
   processMeta st v =
     st\<lparr>logged := logged st @ [LogError (''markdown meta '' @ Name v @ '' has empty path'')]\<rparr>"
  by (simp add: processMeta_def)

lemma processMeta_bad_prefix:
  "Path v \<noteq> [] \<Longrightarrow> \<not> HasPrefix (hd (Split_slash (Path v))) ''markdowns'' \<Longrightarrow>
   processMeta st v = st"
  using Split_slash_not_Nil [of "Path v"]
  by (cases "Split_slash (Path v)") (simp_all add: processMeta_def)


lemma processMeta_sameTrees:
  "sameTrees st st' \<Longrightarrow> sameTrees (processMeta st v) (processMeta st' v)"
  by (simp add: sameTrees_def processMeta_def Let_def split: list.splits prod.splits)

lemma foldl_processMeta_sameTrees:
  "sameTrees st st' \<Longrightarrow> sameTrees (foldl processMeta st vs) (foldl processMeta st' vs)"
  by (induction vs arbitrary: st st') (simp_all add: processMeta_sameTrees)

lemma skipped_record_roots:
  assumes "\<And>st. sameTrees (processMeta st v) st"
  shows "rootNavigationItems (collectRoots (xs @ v # ys)) = rootNavigationItems (collectRoots (xs @ ys))"
proof -
  have "sameTrees (foldl processMeta (processMeta (foldl processMeta initialState xs) v) ys)
          (foldl processMeta (foldl processMeta initialState xs) ys)"
    using assms by (rule foldl_processMeta_sameTrees)
  then show ?thesis by (simp add: collectRoots_def sameTrees_def)
qed

lemma skipped_record_forest:
  assumes "\<And>st. sameTrees (processMeta st v) st"
  shows "BuildNavigationItemTrees key (xs @ v # ys) = BuildNavigationItemTrees key (xs @ ys)"
  using skipped_record_roots [OF assms]
  by (simp add: BuildNavigationItemTrees_def sortedVisibleRoots_def mergedRoots_def)

lemma Split_slash_single: "Split_slash s = [w] \<Longrightarrow> s = w"
proof (induction s arbitrary: w)
  case Nil
  then show ?case by simp
next
  case (Cons c cs)
  show ?case
  proof (cases "c = CHR ''/''")
    case True
    then show ?thesis using Cons.prems Split_slash_not_Nil [of cs] by simp
  next
    case False
    then obtain w' ws where sp: "Split_slash cs = w' # ws"
      using Split_slash_not_Nil [of cs] by (cases "Split_slash cs") auto
    then have "ws = []" and "w = c # w'" using Cons.prems False by auto
    then show ?thesis using Cons.IH [of w'] sp by simp
  qed
qed

lemma processMeta_adds_root:
  assumes "hd (Split_slash (Path v)) = ''markdowns''"
    and "\<not> (Path v = ''markdowns'' \<and> Name v = ''Landing-Page'')"
  shows "length (rootNavigationItems (processMeta st v)) = Suc (length (rootNavigationItems st))"
proof -
  obtain pathElements where sp: "Split_slash (Path v) = ''markdowns'' # pathElements"
    using assms(1) Split_slash_not_Nil [of "Path v"] by (cases "Split_slash (Path v)") auto
  have ne: "Path v \<noteq> []" using sp by auto
  show ?thesis
  proof (cases pathElements)
    case Nil
    then have "Path v = ''markdowns''" using sp Split_slash_single by blast
    then have "Name v \<noteq> ''Landing-Page''" using assms(2) by simp
    then show ?thesis using sp Nil ne by (simp add: processMeta_def HasPrefix_def)
  next
    case (Cons folder below)
    then show ?thesis using sp ne
      by (simp add: processMeta_def HasPrefix_def Let_def split: prod.splits)
  qed
qed

text \<open>
  C5. A record with an empty path is skipped with an error entry in the log. A record
  whose first path segment does not start with \<^verbatim>\<open>markdowns\<close> is skipped as well, but
  without any log entry. Either record adds no node, and the forest is the one built from
  the other records. A record whose first segment is \<^verbatim>\<open>markdowns\<close> adds exactly one
  root to the collected roots, unless it is the top-level document named
  \<^verbatim>\<open>Landing-Page\<close>.
\<close>

theorem invalid_path_records_skipped:
  "(Path v = [] \<longrightarrow>
      processMeta st v =
        st\<lparr>logged := logged st @
              [LogError (''markdown meta '' @ Name v @ '' has empty path'')]\<rparr>) \<and>
   (Path v \<noteq> [] \<and> \<not> HasPrefix (hd (Split_slash (Path v))) ''markdowns'' \<longrightarrow>
      processMeta st v = st) \<and>
   (Path v = [] \<or> \<not> HasPrefix (hd (Split_slash (Path v))) ''markdowns'' \<longrightarrow>
      BuildNavigationItemTrees collationKey (xs @ v # ys) =
      BuildNavigationItemTrees collationKey (xs @ ys)) \<and>
   (hd (Split_slash (Path v)) = ''markdowns'' \<and>
    \<not> (Path v = ''markdowns'' \<and> Name v = ''Landing-Page'') \<longrightarrow>
      length (rootNavigationItems (processMeta st v)) =
      Suc (length (rootNavigationItems st)))"
proof -
  have skip: "BuildNavigationItemTrees collationKey (xs @ v # ys) =
      BuildNavigationItemTrees collationKey (xs @ ys)"
    if "Path v = [] \<or> \<not> HasPrefix (hd (Split_slash (Path v))) ''markdowns''"
  proof (rule skipped_record_forest)
    fix st'
    show "sameTrees (processMeta st' v) st'"
    proof (cases "Path v = []")
      case True
      then show ?thesis by (simp add: processMeta_empty_path sameTrees_def)
    next
      case False
      then show ?thesis using that by (simp add: processMeta_bad_prefix sameTrees_def)
    qed
  qed
  show ?thesis
    using skip processMeta_empty_path [of v st] processMeta_bad_prefix [of v st]
      processMeta_adds_root [of v st]
    by blast
qed

theorem invalid_path_records_skipped_witness:
  "processMeta initialState \<lparr>Name = ''OrphanFile'', Path = []\<rparr> =
     initialState\<lparr>logged := [LogError ''markdown meta OrphanFile has empty path'']\<rparr> \<and>
   processMeta initialState \<lparr>Name = ''OrphanFile'', Path = ''not_markdown''\<rparr> = initialState \<and>
   BuildNavigationItemTrees (\<lambda>s. s)
     ([\<lparr>Name = ''File1'', Path = ''markdowns/Gateway''\<rparr>] @
      \<lparr>Name = ''OrphanFile'', Path = ''not_markdown''\<rparr> #
      [\<lparr>Name = ''File3'', Path = ''markdowns/Another-Folder''\<rparr>]) =
   BuildNavigationItemTrees (\<lambda>s. s)
     ([\<lparr>Name = ''File1'', Path = ''markdowns/Gateway''\<rparr>] @
      [\<lparr>Name = ''File3'', Path = ''markdowns/Another-Folder''\<rparr>]) \<and>
   length (rootNavigationItems
     (processMeta initialState \<lparr>Name = ''File1'', Path = ''markdowns/Gateway''\<rparr>)) = Suc 0"
proof -
  have a: "Path \<lparr>Name = ''OrphanFile'', Path = []\<rparr> = []" by simp
  have b: "Path \<lparr>Name = ''OrphanFile'', Path = ''not_markdown''\<rparr> \<noteq> [] \<and>
      \<not> HasPrefix (hd (Split_slash (Path \<lparr>Name = ''OrphanFile'', Path = ''not_markdown''\<rparr>)))
          ''markdowns''"
    by (simp add: HasPrefix_def)
  have c: "hd (Split_slash (Path \<lparr>Name = ''File1'', Path = ''markdowns/Gateway''\<rparr>)) = ''markdowns'' \<and>
      \<not> (Path \<lparr>Name = ''File1'', Path = ''markdowns/Gateway''\<rparr> = ''markdowns'' \<and>
         Name \<lparr>Name = ''File1'', Path = ''markdowns/Gateway''\<rparr> = ''Landing-Page'')"
    by simp
  show ?thesis
    using a b c
      invalid_path_records_skipped [of "\<lparr>Name = ''OrphanFile'', Path = []\<rparr>" initialState]
      invalid_path_records_skipped [of "\<lparr>Name = ''OrphanFile'', Path = ''not_markdown''\<rparr>"
        initialState "\<lambda>s. s" "[\<lparr>Name = ''File1'', Path = ''markdowns/Gateway''\<rparr>]"
        "[\<lparr>Name = ''File3'', Path = ''markdowns/Another-Folder''\<rparr>]"]
      invalid_path_records_skipped [of "\<lparr>Name = ''File1'', Path = ''markdowns/Gateway''\<rparr>"
        initialState]
    by (simp add: initialState_def)
qed

text \<open>
  The claim C5 as stated asks for a diagnostic at every skipped record. A record whose
  first segment is not \<^verbatim>\<open>markdowns\<close> is skipped and the log stays empty.
\<close>

theorem bad_prefix_skipped_silently:
  "hd (Split_slash ''not_markdown'') \<noteq> ''markdowns'' \<and>
   BuildNavigationItemTrees (\<lambda>s. s) [\<lparr>Name = ''OrphanFile'', Path = ''not_markdown''\<rparr>] = [] \<and>
   BuildNavigationItemTrees_log (\<lambda>s. s) [\<lparr>Name = ''OrphanFile'', Path = ''not_markdown''\<rparr>] = []"
  by code_simp

text \<open>
  The test on the first segment is \<^verbatim>\<open>strings.HasPrefix\<close>, not equality: a first
  segment that only starts with \<^verbatim>\<open>markdowns\<close> passes it.
\<close>

lemma longer_first_segment_is_accepted:
  "hd (Split_slash ''markdowns-old/Gateway'') \<noteq> ''markdowns'' \<and>
   BuildNavigationItemTrees (\<lambda>s. s) [\<lparr>Name = ''Doc'', Path = ''markdowns-old/Gateway''\<rparr>] =
     [NavigationItem 0 ''Gateway'' ''Gateway'' [NavigationItem 1 ''Doc'' ''Doc'' []]]"
  by code_simp




subsection \<open>Numeric prefixes: a mismatch between href and label\<close>






subsection \<open>Hidden roots\<close>

lemma removeNumberPrefixFromRoot_keeps:
  "Uuid (fst (removeNumberPrefixFromRoot r)) = Uuid r"
  "Children (fst (removeNumberPrefixFromRoot r)) = Children r"
  by (simp_all add: removeNumberPrefixFromRoot_def Let_def)

lemma BuildNavigationItemTrees_map:
  "BuildNavigationItemTrees collationKey markdownMetas =
     map (\<lambda>r. fst (removeNumberPrefixFromRoot r)) (sortedVisibleRoots collationKey markdownMetas)"
  by (simp add: BuildNavigationItemTrees_def removeNumberPrefixFromRoots_def)

lemma BuildNavigationItemTrees_Uuid:
  "map Uuid (BuildNavigationItemTrees collationKey markdownMetas) =
     map Uuid (sortedVisibleRoots collationKey markdownMetas)"
  by (simp add: BuildNavigationItemTrees_map removeNumberPrefixFromRoot_keeps o_def)

lemma set_sortedVisibleRoots:
  "set (sortedVisibleRoots collationKey markdownMetas) =
     {r \<in> set (mergedRoots markdownMetas). \<not> MatchDot (Href r)}"
  by (auto simp: sortedVisibleRoots_def collatorSort_def removeDotPrefixedRoots_def)

text \<open>
  The claim C3 as stated removes a node whose href starts with a dot at any depth. The
  filter runs over the roots only; below a visible folder such a node stays.
\<close>

theorem nested_dot_node_is_kept:
  "BuildNavigationItemTrees (\<lambda>s. s) [\<lparr>Name = ''Doc'', Path = ''markdowns/Gateway/.hidden''\<rparr>] =
     [NavigationItem 0 ''Gateway'' ''Gateway''
        [NavigationItem 1 ''.hidden'' ''.hidden'' [NavigationItem 2 ''Doc'' ''Doc'' []]]]"
  by code_simp

text \<open>
  C3. The roots of the returned forest are the merged roots whose href does not start
  with a dot, each with the uuid and the children it has after the merge: a merged root
  whose href starts with a dot is not among them, and its subtree goes with it. The
  href meant is the one the root has after the merge, before the numeric prefixes are
  stripped.
\<close>

theorem dot_prefixed_roots_removed:
  "mset (map Uuid (BuildNavigationItemTrees collationKey markdownMetas)) =
     mset (map Uuid (filter (\<lambda>r. \<not> MatchDot (Href r)) (mergedRoots markdownMetas))) \<and>
   (\<forall>r \<in> set (BuildNavigationItemTrees collationKey markdownMetas).
      \<exists>r0 \<in> set (mergedRoots markdownMetas).
        \<not> MatchDot (Href r0) \<and> r = fst (removeNumberPrefixFromRoot r0) \<and>
        Uuid r = Uuid r0 \<and> Children r = Children r0)"
proof -
  have "mset (sortedVisibleRoots collationKey markdownMetas) =
      mset (filter (\<lambda>r. \<not> MatchDot (Href r)) (mergedRoots markdownMetas))"
    by (simp add: sortedVisibleRoots_def collatorSort_def removeDotPrefixedRoots_def)
  then have "mset (map Uuid (sortedVisibleRoots collationKey markdownMetas)) =
      mset (map Uuid (filter (\<lambda>r. \<not> MatchDot (Href r)) (mergedRoots markdownMetas)))"
    by (metis mset_map)
  then have a: "mset (map Uuid (BuildNavigationItemTrees collationKey markdownMetas)) =
     mset (map Uuid (filter (\<lambda>r. \<not> MatchDot (Href r)) (mergedRoots markdownMetas)))"
    by (simp only: BuildNavigationItemTrees_Uuid)
  have b: "\<exists>r0 \<in> set (mergedRoots markdownMetas).
        \<not> MatchDot (Href r0) \<and> r = fst (removeNumberPrefixFromRoot r0) \<and>
        Uuid r = Uuid r0 \<and> Children r = Children r0"
    if h: "r \<in> set (BuildNavigationItemTrees collationKey markdownMetas)" for r
  proof -
    obtain r0 where "r0 \<in> set (sortedVisibleRoots collationKey markdownMetas)"
      and "r = fst (removeNumberPrefixFromRoot r0)"
      using h by (auto simp: BuildNavigationItemTrees_map)
    then show ?thesis
      using set_sortedVisibleRoots [of collationKey markdownMetas]
      by (auto simp: removeNumberPrefixFromRoot_keeps)
  qed
  show ?thesis using a b by blast
qed

theorem dot_prefixed_roots_removed_witness:
  "map Href (mergedRoots
     [\<lparr>Name = ''File1'', Path = ''markdowns/Gateway''\<rparr>,
      \<lparr>Name = ''Hidden1'', Path = ''markdowns/.HiddenFolder''\<rparr>,
      \<lparr>Name = ''.HiddenMarkdown'', Path = ''markdowns''\<rparr>]) =
     [''.HiddenFolder'', ''.HiddenMarkdown'', ''Gateway''] \<and>
   BuildNavigationItemTrees (\<lambda>s. s)
     [\<lparr>Name = ''File1'', Path = ''markdowns/Gateway''\<rparr>,
      \<lparr>Name = ''Hidden1'', Path = ''markdowns/.HiddenFolder''\<rparr>,
      \<lparr>Name = ''.HiddenMarkdown'', Path = ''markdowns''\<rparr>] =
     [NavigationItem 0 ''Gateway'' ''Gateway'' [NavigationItem 1 ''File1'' ''File1'' []]] \<and>
   mset (map Uuid (BuildNavigationItemTrees (\<lambda>s. s)
     [\<lparr>Name = ''File1'', Path = ''markdowns/Gateway''\<rparr>,
      \<lparr>Name = ''Hidden1'', Path = ''markdowns/.HiddenFolder''\<rparr>,
      \<lparr>Name = ''.HiddenMarkdown'', Path = ''markdowns''\<rparr>])) =
   mset (map Uuid (filter (\<lambda>r. \<not> MatchDot (Href r)) (mergedRoots
     [\<lparr>Name = ''File1'', Path = ''markdowns/Gateway''\<rparr>,
      \<lparr>Name = ''Hidden1'', Path = ''markdowns/.HiddenFolder''\<rparr>,
      \<lparr>Name = ''.HiddenMarkdown'', Path = ''markdowns''\<rparr>])))"
proof -
  have "map Href (mergedRoots
     [\<lparr>Name = ''File1'', Path = ''markdowns/Gateway''\<rparr>,
      \<lparr>Name = ''Hidden1'', Path = ''markdowns/.HiddenFolder''\<rparr>,
      \<lparr>Name = ''.HiddenMarkdown'', Path = ''markdowns''\<rparr>]) =
     [''.HiddenFolder'', ''.HiddenMarkdown'', ''Gateway'']"
    by code_simp
  moreover have "BuildNavigationItemTrees (\<lambda>s. s)
     [\<lparr>Name = ''File1'', Path = ''markdowns/Gateway''\<rparr>,
      \<lparr>Name = ''Hidden1'', Path = ''markdowns/.HiddenFolder''\<rparr>,
      \<lparr>Name = ''.HiddenMarkdown'', Path = ''markdowns''\<rparr>] =
     [NavigationItem 0 ''Gateway'' ''Gateway'' [NavigationItem 1 ''File1'' ''File1'' []]]"
    by code_simp
  ultimately show ?thesis
    using dot_prefixed_roots_removed [of "\<lambda>s. s"
     "[\<lparr>Name = ''File1'', Path = ''markdowns/Gateway''\<rparr>,
      \<lparr>Name = ''Hidden1'', Path = ''markdowns/.HiddenFolder''\<rparr>,
      \<lparr>Name = ''.HiddenMarkdown'', Path = ''markdowns''\<rparr>]"]
    by blast
qed

subsection \<open>The merge: shape of the result\<close>

lemma link_Nil: "linkChildrenWithTheSameParent [] = []"
  by (subst linkChildrenWithTheSameParent.simps) simp

lemma link_nonempty:
  "ts \<noteq> [] \<Longrightarrow>
   linkChildrenWithTheSameParent ts =
     map (\<lambda>t. setChildren t (linkChildrenWithTheSameParent (Children t))) (mergeSameHref ts)"
  by (subst linkChildrenWithTheSameParent.simps) simp

lemma link_Href:
  "ts \<noteq> [] \<Longrightarrow> map Href (linkChildrenWithTheSameParent ts) = map Href (mergeSameHref ts)"
  by (simp add: link_nonempty o_def)

lemma link_sorted: "sorted (map Href (linkChildrenWithTheSameParent ts))"
proof (cases "ts = []")
  case True
  then show ?thesis by (simp add: link_Nil)
next
  case False
  then show ?thesis by (simp add: link_Href mergeSameHref_def)
qed

subsection \<open>The merge: one node for every href\<close>

lemma twinKeys_simps:
  "twinKeys self [] = {}"
  "twinKeys self (uuid # uuids) =
     (if uuid = Uuid self then twinKeys self uuids else insert (Href self, uuid) (twinKeys self uuids))"
  "twinKeys (setChildren self cs) uuids = twinKeys self uuids"
  by (auto simp: twinKeys_def)

lemma linkTwins_map_of:
  "linkTwins self uuids m = (self', m') \<Longrightarrow>
   map_of m' = (\<lambda>k. if k \<in> twinKeys self uuids then None else map_of m k)"
proof (induction self uuids m rule: linkTwins.induct)
  case (1 self trees)
  then show ?case by (simp add: twinKeys_simps)
next
  case (2 self uuid uuids trees)
  show ?case
  proof (cases "Uuid self = uuid")
    case True
    then show ?thesis using 2 by (simp add: twinKeys_simps)
  next
    case False
    show ?thesis
    proof (cases "map_of trees (Href self, uuid)")
      case None
      then have "map_of m' = (\<lambda>k. if k \<in> twinKeys self uuids then None else map_of trees k)"
        using 2 False by simp
      then show ?thesis using None False by (auto simp: twinKeys_simps)
    next
      case (Some twin)
      then have "map_of m' =
          (\<lambda>k. if k \<in> twinKeys self uuids then None
                else map_of (AList.delete (Href self, uuid) trees) k)"
        using 2 False by (simp add: twinKeys_simps)
      then show ?thesis using False by (auto simp: twinKeys_simps AList.delete_conv')
    qed
  qed
qed

lemma linkTwins_distinct:
  "linkTwins self uuids m = (self', m') \<Longrightarrow> distinct (map fst m) \<Longrightarrow> distinct (map fst m')"
  by (induction self uuids m rule: linkTwins.induct)
     (auto split: if_splits option.splits simp: AList.distinct_delete)

lemma linkTwins_same:
  "linkTwins self uuids m = (self', m') \<Longrightarrow>
   Href self' = Href self \<and> Uuid self' = Uuid self \<and> Label self' = Label self"
  by (induction self uuids m rule: linkTwins.induct) (auto split: if_splits option.splits)

lemma storeSelf_map_of:
  "map_of (storeSelf self self' m) =
     (if map_of m (Href self, Uuid self) = Some self
      then (map_of m)((Href self, Uuid self) \<mapsto> self') else map_of m)"
  by (simp add: storeSelf_def AList.update_conv')

lemma storeSelf_distinct: "distinct (map fst m) \<Longrightarrow> distinct (map fst (storeSelf self self' m))"
  by (simp add: storeSelf_def AList.distinct_update)

lemma mergeInv_step:
  assumes inv: "mergeInv m um"
    and um: "map_of um (Href self) = Some uuids"
    and lt: "linkTwins self uuids m = (self', m')"
  shows "mergeInv (storeSelf self self' m') (AList.delete (Href self) um)"
proof -
  let ?m = "storeSelf self self' m'" and ?um = "AList.delete (Href self) um"
  let ?sk = "(Href self, Uuid self)"
  note same = linkTwins_same [OF lt]
  have mo: "map_of m' k = (if k \<in> twinKeys self uuids then None else map_of m k)" for k
    using linkTwins_map_of [OF lt] by simp
  have st: "map_of ?m k =
      (if k = ?sk \<and> map_of m' ?sk = Some self then Some self' else map_of m' k)" for k
    by (simp add: storeSelf_map_of)
  have sub: "\<exists>w. map_of m k = Some w \<and> k \<notin> twinKeys self uuids" if "map_of ?m k = Some v" for k v
  proof (cases "k = ?sk \<and> map_of m' ?sk = Some self")
    case True
    then have "map_of m' k = Some self" by simp
    then show ?thesis unfolding mo by (simp split: if_splits)
  next
    case False
    then have "map_of m' k = Some v" using that unfolding st by (auto split: if_splits)
    then show ?thesis unfolding mo by (simp split: if_splits)
  qed
  have d: "distinct (map fst ?m)"
    using inv lt by (simp add: mergeInv_def storeSelf_distinct linkTwins_distinct)
  have hr: "Href v = h" if "map_of ?m (h, u) = Some v" for h u v
  proof (cases "(h, u) = ?sk \<and> map_of m' ?sk = Some self")
    case True
    then have "v = self'" using that unfolding st by (auto split: if_splits)
    then show ?thesis using True same by simp
  next
    case False
    then have "map_of m' (h, u) = Some v" using that unfolding st by (auto split: if_splits)
    then have "map_of m (h, u) = Some v" unfolding mo by (simp split: if_splits)
    then show ?thesis using inv unfolding mergeInv_def by blast
  qed
  have pr: "\<exists>us. map_of ?um h = Some us \<and> u \<in> set us \<and> u' \<in> set us"
    if a: "map_of ?m (h, u) = Some v" and b: "map_of ?m (h, u') = Some v'" and ne: "u \<noteq> u'"
    for h u u' v v'
  proof -
    obtain w where w: "map_of m (h, u) = Some w" "(h, u) \<notin> twinKeys self uuids"
      using sub [OF a] by blast
    obtain w' where w': "map_of m (h, u') = Some w'" "(h, u') \<notin> twinKeys self uuids"
      using sub [OF b] by blast
    obtain us where us: "map_of um h = Some us" "u \<in> set us" "u' \<in> set us"
      using inv w(1) w'(1) ne unfolding mergeInv_def by blast
    have "h \<noteq> Href self"
    proof
      assume "h = Href self"
      then have "us = uuids" using us(1) um by simp
      then have "u = Uuid self" "u' = Uuid self"
        using w(2) w'(2) us(2,3) \<open>h = Href self\<close> by (auto simp: twinKeys_def)
      then show False using ne by simp
    qed
    then show ?thesis using us by (auto simp: AList.delete_conv')
  qed
  show ?thesis unfolding mergeInv_def using d hr pr by blast
qed

lemma storeSelf_dom:
  assumes lt: "linkTwins self uuids m = (self', m')"
    and s: "map_of (storeSelf self self' m') k = Some v"
  shows "\<exists>w. map_of m k = Some w"
proof -
  have mo: "map_of m' k = (if k \<in> twinKeys self uuids then None else map_of m k)" for k
    using linkTwins_map_of [OF lt] by simp
  have "\<exists>w. map_of m' k = Some w"
    using s by (simp add: storeSelf_map_of split: if_splits)
  then show ?thesis unfolding mo by (simp split: if_splits)
qed

lemma linkLoop_distinct:
  "mergeInv m um \<Longrightarrow>
   (\<forall>h u v. map_of m (h, u) = Some v \<and> map_of um h \<noteq> None \<longrightarrow> h \<in> Href ` set ts) \<Longrightarrow>
   distinct (map (\<lambda>p. Href (snd p)) (linkLoop ts m um))"
proof (induction ts arbitrary: m um)
  case Nil
  have d: "distinct (map fst m)" using Nil.prems(1) by (simp add: mergeInv_def)
  have inj: "inj_on (\<lambda>p. Href (snd p)) (set m)"
  proof (rule inj_onI)
    fix p q assume p: "p \<in> set m" and q: "q \<in> set m" and e: "Href (snd p) = Href (snd q)"
    obtain h u v where pe: "p = ((h, u), v)" by (cases p) auto
    obtain h' u' v' where qe: "q = ((h', u'), v')" by (cases q) auto
    have mp: "map_of m (h, u) = Some v" using d p pe by simp
    have mq: "map_of m (h', u') = Some v'" using d q qe by simp
    have "Href v = h" "Href v' = h'" using Nil.prems(1) mp mq by (auto simp: mergeInv_def)
    then have hh: "h = h'" using e pe qe by simp
    have "u = u'"
    proof (rule ccontr)
      assume "u \<noteq> u'"
      then obtain us where "map_of um h = Some us"
        using Nil.prems(1) mp mq hh unfolding mergeInv_def by blast
      then show False using Nil.prems(2) [rule_format, of h u v] mp by simp
    qed
    then show "p = q" using hh mp mq pe qe by simp
  qed
  have "distinct m" using d by (simp add: distinct_map)
  then show ?case using inj by (simp add: distinct_map)
next
  case (Cons self rest)
  show ?case
  proof (cases "map_of um (Href self)")
    case None
    have "\<forall>h u v. map_of m (h, u) = Some v \<and> map_of um h \<noteq> None \<longrightarrow> h \<in> Href ` set rest"
      using Cons.prems(2) None by fastforce
    then show ?thesis using Cons.IH [OF Cons.prems(1)] None by simp
  next
    case (Some uuids)
    obtain self' m' where lt: "linkTwins self uuids m = (self', m')"
      by (cases "linkTwins self uuids m") auto
    let ?m = "storeSelf self self' m'" and ?um = "AList.delete (Href self) um"
    have inv: "mergeInv ?m ?um"
      using Cons.prems(1) Some lt by (rule mergeInv_step)
    have "\<forall>h u v. map_of ?m (h, u) = Some v \<and> map_of ?um h \<noteq> None \<longrightarrow> h \<in> Href ` set rest"
    proof (intro allI impI)
      fix h u v assume a: "map_of ?m (h, u) = Some v \<and> map_of ?um h \<noteq> None"
      then have ne: "h \<noteq> Href self" and um: "map_of um h \<noteq> None"
        by (auto simp: AList.delete_conv' split: if_splits)
      obtain w where "map_of m (h, u) = Some w"
        using storeSelf_dom [OF lt] a by blast
      then have "h \<in> Href ` set (self # rest)" using Cons.prems(2) um by blast
      then show "h \<in> Href ` set rest" using ne by auto
    qed
    then show ?thesis using Cons.IH [OF inv] Some lt by simp
  qed
qed

lemma SliceToMap_snoc:
  "SliceToMap (ts @ [x]) = AList.update (Href x, Uuid x) x (SliceToMap ts)"
  by (simp add: SliceToMap_def)

lemma groupUuidsByHref_snoc:
  "map_of (groupUuidsByHref (ts @ [x])) =
     (map_of (groupUuidsByHref ts))
       (Href x \<mapsto> (case map_of (groupUuidsByHref ts) (Href x) of
                       Some uuids \<Rightarrow> uuids @ [Uuid x] | None \<Rightarrow> [Uuid x]))"
  by (simp add: groupUuidsByHref_def AList.update_conv' split: option.splits)

lemma SliceToMap_distinct: "distinct (map fst (SliceToMap ts))"
  by (induction ts rule: rev_induct)
     (simp_all add: SliceToMap_snoc AList.distinct_update, simp add: SliceToMap_def)

lemma SliceToMap_entry:
  "map_of (SliceToMap ts) (h, u) = Some v \<Longrightarrow> v \<in> set ts \<and> Href v = h \<and> Uuid v = u"
proof (induction ts rule: rev_induct)
  case Nil
  then show ?case by (simp add: SliceToMap_def)
next
  case (snoc x ts)
  then show ?case
    by (auto simp: SliceToMap_snoc AList.update_conv' split: if_splits)
qed

lemma groupUuidsByHref_listed:
  "v \<in> set ts \<Longrightarrow> \<exists>us. map_of (groupUuidsByHref ts) (Href v) = Some us \<and> Uuid v \<in> set us"
proof (induction ts rule: rev_induct)
  case Nil
  then show ?case by simp
next
  case (snoc x ts)
  show ?case
  proof (cases "v \<in> set ts")
    case True
    then obtain us where "map_of (groupUuidsByHref ts) (Href v) = Some us" "Uuid v \<in> set us"
      using snoc.IH by blast
    then show ?thesis by (auto simp: groupUuidsByHref_snoc)
  next
    case False
    then have "v = x" using snoc.prems by simp
    then show ?thesis by (auto simp: groupUuidsByHref_snoc split: option.splits)
  qed
qed

lemma mergeInv_initial: "mergeInv (SliceToMap ts) (groupUuidsByHref ts)"
proof -
  have "\<exists>us. map_of (groupUuidsByHref ts) h = Some us \<and> u \<in> set us"
    if "map_of (SliceToMap ts) (h, u) = Some v" for h u v
    using SliceToMap_entry [OF that] groupUuidsByHref_listed [of v ts] by auto
  then show ?thesis
    unfolding mergeInv_def using SliceToMap_distinct [of ts] SliceToMap_entry [of ts]
    by (metis option.inject)
qed

lemma mergeSameHref_distinct: "distinct (map Href (mergeSameHref ts))"
proof -
  let ?m = "linkLoop ts (SliceToMap ts) (groupUuidsByHref ts)"
  have "\<forall>h u v. map_of (SliceToMap ts) (h, u) = Some v \<and> map_of (groupUuidsByHref ts) h \<noteq> None
      \<longrightarrow> h \<in> Href ` set ts"
    using SliceToMap_entry [of ts] by blast
  then have "distinct (map (\<lambda>p. Href (snd p)) ?m)"
    using mergeInv_initial by (rule linkLoop_distinct [rotated])
  then have "distinct (map Href (map snd ?m))" by (simp add: o_def)
  moreover have "mset (mergeSameHref ts) = mset (map snd ?m)"
    by (simp add: mergeSameHref_def)
  then have "mset (map Href (mergeSameHref ts)) = mset (map Href (map snd ?m))"
    by (metis mset_map)
  ultimately show ?thesis by (metis mset_eq_imp_distinct_iff)
qed

lemma link_distinct: "distinct (map Href (linkChildrenWithTheSameParent ts))"
proof (cases "ts = []")
  case True
  then show ?thesis by (simp add: link_Nil)
next
  case False
  then show ?thesis by (simp add: link_Href mergeSameHref_distinct)
qed

subsection \<open>Sibling groups after the merge\<close>

lemma uniqueSiblingHrefs_setChildren:
  "uniqueSiblingHrefs (setChildren n cs) =
     (distinct (map Href cs) \<and> (\<forall>c \<in> set cs. uniqueSiblingHrefs c))"
  by (simp add: setChildren_def)

lemma uniqueSiblingHrefs_same_Children:
  "Children r = Children r0 \<Longrightarrow> uniqueSiblingHrefs r = uniqueSiblingHrefs r0"
  by (cases r; cases r0) simp

lemma link_uniqueSiblingHrefs:
  "\<forall>t \<in> set (linkChildrenWithTheSameParent ts). uniqueSiblingHrefs t"
proof (induction ts rule: linkChildrenWithTheSameParent.induct)
  case (1 ts)
  show ?case
  proof (cases "ts = []")
    case True
    then show ?thesis by (simp add: link_Nil)
  next
    case False
    show ?thesis
    proof
      fix t assume "t \<in> set (linkChildrenWithTheSameParent ts)"
      then obtain x where x: "x \<in> set (mergeSameHref ts)"
        and t: "t = setChildren x (linkChildrenWithTheSameParent (Children x))"
        using False by (auto simp: link_nonempty)
      have "\<forall>c \<in> set (linkChildrenWithTheSameParent (Children x)). uniqueSiblingHrefs c"
        using 1 False x by simp
      then show "uniqueSiblingHrefs t"
        using link_distinct [of "Children x"] by (simp add: t uniqueSiblingHrefs_setChildren)
    qed
  qed
qed

lemma set_BuildNavigationItemTrees_Children:
  assumes "r \<in> set (BuildNavigationItemTrees collationKey markdownMetas)"
  shows "\<exists>r0 \<in> set (mergedRoots markdownMetas). Children r = Children r0"
proof -
  obtain r0 where "r0 \<in> set (sortedVisibleRoots collationKey markdownMetas)"
    and "r = fst (removeNumberPrefixFromRoot r0)"
    using assms by (auto simp: BuildNavigationItemTrees_map)
  then show ?thesis
    using set_sortedVisibleRoots [of collationKey markdownMetas]
    by (auto simp: removeNumberPrefixFromRoot_keeps)
qed

text \<open>
  C9. After the merge pass the hrefs of the roots are pairwise distinct, and so are the
  hrefs of the children of every node at every depth; the children lists of the returned
  forest are those of the merged roots and keep the property. Two records with the path
  \<^verbatim>\<open>markdowns/Gateway\<close> give one root \<^verbatim>\<open>Gateway\<close> with both documents as its
  children, under every collation.
\<close>

theorem merged_siblings_have_distinct_hrefs:
  "distinct (map Href (mergedRoots markdownMetas)) \<and>
   (\<forall>t \<in> set (mergedRoots markdownMetas). uniqueSiblingHrefs t) \<and>
   (\<forall>r \<in> set (BuildNavigationItemTrees collationKey markdownMetas). uniqueSiblingHrefs r) \<and>
   BuildNavigationItemTrees collationKey
     [\<lparr>Name = ''File1'', Path = ''markdowns/Gateway''\<rparr>,
      \<lparr>Name = ''File2'', Path = ''markdowns/Gateway''\<rparr>] =
     [NavigationItem 0 ''Gateway'' ''Gateway''
        [NavigationItem 1 ''File1'' ''File1'' [], NavigationItem 3 ''File2'' ''File2'' []]]"
proof -
  have a: "distinct (map Href (mergedRoots markdownMetas))"
    by (simp add: mergedRoots_def link_distinct)
  have b: "\<forall>t \<in> set (mergedRoots markdownMetas). uniqueSiblingHrefs t"
    by (simp add: mergedRoots_def link_uniqueSiblingHrefs)
  have c: "uniqueSiblingHrefs r"
    if h: "r \<in> set (BuildNavigationItemTrees collationKey markdownMetas)" for r
  proof -
    obtain r0 where "r0 \<in> set (mergedRoots markdownMetas)" "Children r = Children r0"
      using set_BuildNavigationItemTrees_Children [OF h] by blast
    then show ?thesis
      using b uniqueSiblingHrefs_same_Children [of r r0] by simp
  qed
  have m: "removeDotPrefixedRoots (mergedRoots
     [\<lparr>Name = ''File1'', Path = ''markdowns/Gateway''\<rparr>,
      \<lparr>Name = ''File2'', Path = ''markdowns/Gateway''\<rparr>]) =
     [NavigationItem 0 ''Gateway'' ''Gateway''
        [NavigationItem 1 ''File1'' ''File1'' [], NavigationItem 3 ''File2'' ''File2'' []]]"
    by code_simp
  have n: "fst (removeNumberPrefixFromRoot (NavigationItem 0 ''Gateway'' ''Gateway''
        [NavigationItem 1 ''File1'' ''File1'' [], NavigationItem 3 ''File2'' ''File2'' []])) =
      NavigationItem 0 ''Gateway'' ''Gateway''
        [NavigationItem 1 ''File1'' ''File1'' [], NavigationItem 3 ''File2'' ''File2'' []]"
    by code_simp
  have d: "BuildNavigationItemTrees collationKey
     [\<lparr>Name = ''File1'', Path = ''markdowns/Gateway''\<rparr>,
      \<lparr>Name = ''File2'', Path = ''markdowns/Gateway''\<rparr>] =
     [NavigationItem 0 ''Gateway'' ''Gateway''
        [NavigationItem 1 ''File1'' ''File1'' [], NavigationItem 3 ''File2'' ''File2'' []]]"
  proof -
    have "sortedVisibleRoots collationKey
       [\<lparr>Name = ''File1'', Path = ''markdowns/Gateway''\<rparr>,
        \<lparr>Name = ''File2'', Path = ''markdowns/Gateway''\<rparr>] =
       [NavigationItem 0 ''Gateway'' ''Gateway''
          [NavigationItem 1 ''File1'' ''File1'' [], NavigationItem 3 ''File2'' ''File2'' []]]"
      unfolding sortedVisibleRoots_def m by (simp add: collatorSort_def)
    then show ?thesis
      unfolding BuildNavigationItemTrees_map by (simp only: list.map n)
  qed
  show ?thesis using a b c d by blast
qed

theorem merged_siblings_have_distinct_hrefs_witness:
  "map Href (rootNavigationItems (collectRoots
     [\<lparr>Name = ''File1'', Path = ''markdowns/Gateway''\<rparr>,
      \<lparr>Name = ''File2'', Path = ''markdowns/Gateway/Sub''\<rparr>,
      \<lparr>Name = ''File3'', Path = ''markdowns/Gateway/Sub''\<rparr>])) =
     [''Gateway'', ''Gateway'', ''Gateway''] \<and>
   mergedRoots
     [\<lparr>Name = ''File1'', Path = ''markdowns/Gateway''\<rparr>,
      \<lparr>Name = ''File2'', Path = ''markdowns/Gateway/Sub''\<rparr>,
      \<lparr>Name = ''File3'', Path = ''markdowns/Gateway/Sub''\<rparr>] =
     [NavigationItem 0 ''Gateway'' ''Gateway''
        [NavigationItem 1 ''File1'' ''File1'' [],
         NavigationItem 3 ''Sub'' ''Sub''
           [NavigationItem 4 ''File2'' ''File2'' [], NavigationItem 7 ''File3'' ''File3'' []]]] \<and>
   distinct (map Href (mergedRoots
     [\<lparr>Name = ''File1'', Path = ''markdowns/Gateway''\<rparr>,
      \<lparr>Name = ''File2'', Path = ''markdowns/Gateway/Sub''\<rparr>,
      \<lparr>Name = ''File3'', Path = ''markdowns/Gateway/Sub''\<rparr>]))"
proof -
  have "map Href (rootNavigationItems (collectRoots
     [\<lparr>Name = ''File1'', Path = ''markdowns/Gateway''\<rparr>,
      \<lparr>Name = ''File2'', Path = ''markdowns/Gateway/Sub''\<rparr>,
      \<lparr>Name = ''File3'', Path = ''markdowns/Gateway/Sub''\<rparr>])) =
     [''Gateway'', ''Gateway'', ''Gateway'']"
    by code_simp
  moreover have "mergedRoots
     [\<lparr>Name = ''File1'', Path = ''markdowns/Gateway''\<rparr>,
      \<lparr>Name = ''File2'', Path = ''markdowns/Gateway/Sub''\<rparr>,
      \<lparr>Name = ''File3'', Path = ''markdowns/Gateway/Sub''\<rparr>] =
     [NavigationItem 0 ''Gateway'' ''Gateway''
        [NavigationItem 1 ''File1'' ''File1'' [],
         NavigationItem 3 ''Sub'' ''Sub''
           [NavigationItem 4 ''File2'' ''File2'' [], NavigationItem 7 ''File3'' ''File3'' []]]]"
    by code_simp
  ultimately show ?thesis
    using merged_siblings_have_distinct_hrefs [of
     "[\<lparr>Name = ''File1'', Path = ''markdowns/Gateway''\<rparr>,
      \<lparr>Name = ''File2'', Path = ''markdowns/Gateway/Sub''\<rparr>,
      \<lparr>Name = ''File3'', Path = ''markdowns/Gateway/Sub''\<rparr>]" "\<lambda>s. s"]
    by blast
qed

subsection \<open>Order of the sibling lists\<close>

lemma childrenByteOrdered_setChildren:
  "childrenByteOrdered (setChildren n cs) =
     (sorted (map Href cs) \<and> (\<forall>c \<in> set cs. childrenByteOrdered c))"
  by (simp add: setChildren_def)

lemma childrenByteOrdered_same_Children:
  "Children r = Children r0 \<Longrightarrow> childrenByteOrdered r = childrenByteOrdered r0"
  by (cases r; cases r0) simp

lemma link_childrenByteOrdered:
  "\<forall>t \<in> set (linkChildrenWithTheSameParent ts). childrenByteOrdered t"
proof (induction ts rule: linkChildrenWithTheSameParent.induct)
  case (1 ts)
  show ?case
  proof (cases "ts = []")
    case True
    then show ?thesis by (simp add: link_Nil)
  next
    case False
    show ?thesis
    proof
      fix t assume "t \<in> set (linkChildrenWithTheSameParent ts)"
      then obtain x where x: "x \<in> set (mergeSameHref ts)"
        and t: "t = setChildren x (linkChildrenWithTheSameParent (Children x))"
        using False by (auto simp: link_nonempty)
      have "\<forall>c \<in> set (linkChildrenWithTheSameParent (Children x)). childrenByteOrdered c"
        using 1 False x by simp
      then show "childrenByteOrdered t"
        using link_sorted [of "Children x"] by (simp add: t childrenByteOrdered_setChildren)
    qed
  qed
qed

text \<open>
  The claim C4 as stated orders every sibling list by the injected collation. With a
  collation that ignores case (the key lower-cases the href), the two documents of the
  folder below come in byte order, \<^verbatim>\<open>B\<close> before \<^verbatim>\<open>a\<close>, which is not the order of
  their keys.
\<close>

theorem children_are_not_collated:
  "BuildNavigationItemTrees ToLower
     [\<lparr>Name = ''a'', Path = ''markdowns/Gateway''\<rparr>,
      \<lparr>Name = ''B'', Path = ''markdowns/Gateway''\<rparr>] =
     [NavigationItem 0 ''Gateway'' ''Gateway''
        [NavigationItem 3 ''B'' ''B'' [], NavigationItem 1 ''a'' ''a'' []]] \<and>
   \<not> sorted (map ToLower [''B'', ''a''])"
  by code_simp

text \<open>
  C4. The roots are sorted by the collation key of the href they have after the merge;
  stripping the numeric prefixes afterwards rewrites hrefs and labels but keeps that
  order. Below the roots, the children of every node at every depth are in ascending byte
  order of their hrefs.
\<close>

theorem roots_collated_children_bytewise:
  "sorted (map (\<lambda>r. collationKey (Href r)) (sortedVisibleRoots collationKey markdownMetas)) \<and>
   map Uuid (BuildNavigationItemTrees collationKey markdownMetas) =
     map Uuid (sortedVisibleRoots collationKey markdownMetas) \<and>
   (\<forall>r \<in> set (BuildNavigationItemTrees collationKey markdownMetas). childrenByteOrdered r)"
proof (intro conjI ballI)
  show "sorted (map (\<lambda>r. collationKey (Href r))
      (sortedVisibleRoots collationKey markdownMetas))"
    by (simp add: sortedVisibleRoots_def collatorSort_def)
next
  show "map Uuid (BuildNavigationItemTrees collationKey markdownMetas) =
     map Uuid (sortedVisibleRoots collationKey markdownMetas)"
    by (rule BuildNavigationItemTrees_Uuid)
next
  fix r assume h: "r \<in> set (BuildNavigationItemTrees collationKey markdownMetas)"
  obtain r0 where r0: "r0 \<in> set (mergedRoots markdownMetas)" "Children r = Children r0"
    using set_BuildNavigationItemTrees_Children [OF h] by blast
  have "childrenByteOrdered r0"
    using r0(1) link_childrenByteOrdered by (simp add: mergedRoots_def)
  then show "childrenByteOrdered r"
    using childrenByteOrdered_same_Children [OF r0(2)] by simp
qed

theorem roots_collated_children_bytewise_witness:
  "map Href (sortedVisibleRoots ToLower
     [\<lparr>Name = ''x'', Path = ''markdowns/B''\<rparr>,
      \<lparr>Name = ''Z'', Path = ''markdowns/a''\<rparr>,
      \<lparr>Name = ''y'', Path = ''markdowns/a''\<rparr>]) = [''a'', ''B''] \<and>
   sorted (map (\<lambda>r. ToLower (Href r)) (sortedVisibleRoots ToLower
     [\<lparr>Name = ''x'', Path = ''markdowns/B''\<rparr>,
      \<lparr>Name = ''Z'', Path = ''markdowns/a''\<rparr>,
      \<lparr>Name = ''y'', Path = ''markdowns/a''\<rparr>])) \<and>
   BuildNavigationItemTrees ToLower
     [\<lparr>Name = ''x'', Path = ''markdowns/B''\<rparr>,
      \<lparr>Name = ''Z'', Path = ''markdowns/a''\<rparr>,
      \<lparr>Name = ''y'', Path = ''markdowns/a''\<rparr>] =
     [NavigationItem 2 ''a'' ''a''
        [NavigationItem 3 ''Z'' ''Z'' [], NavigationItem 5 ''y'' ''y'' []],
      NavigationItem 0 ''B'' ''B'' [NavigationItem 1 ''x'' ''x'' []]]"
proof -
  have "map Href (sortedVisibleRoots ToLower
     [\<lparr>Name = ''x'', Path = ''markdowns/B''\<rparr>,
      \<lparr>Name = ''Z'', Path = ''markdowns/a''\<rparr>,
      \<lparr>Name = ''y'', Path = ''markdowns/a''\<rparr>]) = [''a'', ''B'']"
    by code_simp
  moreover have "BuildNavigationItemTrees ToLower
     [\<lparr>Name = ''x'', Path = ''markdowns/B''\<rparr>,
      \<lparr>Name = ''Z'', Path = ''markdowns/a''\<rparr>,
      \<lparr>Name = ''y'', Path = ''markdowns/a''\<rparr>] =
     [NavigationItem 2 ''a'' ''a''
        [NavigationItem 3 ''Z'' ''Z'' [], NavigationItem 5 ''y'' ''y'' []],
      NavigationItem 0 ''B'' ''B'' [NavigationItem 1 ''x'' ''x'' []]]"
    by code_simp
  ultimately show ?thesis
    using roots_collated_children_bytewise [of ToLower
     "[\<lparr>Name = ''x'', Path = ''markdowns/B''\<rparr>,
      \<lparr>Name = ''Z'', Path = ''markdowns/a''\<rparr>,
      \<lparr>Name = ''y'', Path = ''markdowns/a''\<rparr>]"]
    by blast
qed

subsection \<open>Numeric prefixes of the roots\<close>

lemma labelled_setChildren [simp]: "labelled (setChildren n cs) = labelled n"
  by (simp add: labelled_def)

lemma labelled_new [simp]: "labelled (NavigationItem u h (ReplaceAll_underscore h) cs)"
  by (simp add: labelled_def)

lemma createNavItemTree_labelled:
  "createNavItemTree ps navItem u = (bottom, u') \<Longrightarrow>
   labelled (node navItem) \<Longrightarrow> \<forall>p \<in> set (parents navItem). labelled p \<Longrightarrow>
   labelled (node bottom) \<and> (\<forall>p \<in> set (parents bottom). labelled p)"
  by (induction ps navItem u rule: createNavItemTree.induct) auto

lemma findRoot_labelled:
  "labelled (node navItem) \<Longrightarrow> \<forall>p \<in> set (parents navItem). labelled p \<Longrightarrow>
   labelled (findRoot navItem)"
  by (induction navItem rule: findRoot.induct) auto

lemma processMeta_labelled:
  assumes "\<forall>r \<in> set (rootNavigationItems st). labelled r"
  shows "\<forall>r \<in> set (rootNavigationItems (processMeta st v)). labelled r"
proof (cases "Path v = []")
  case True
  then show ?thesis using assms by (simp add: processMeta_def)
next
  case False
  obtain first pathElements where sp: "Split_slash (Path v) = first # pathElements"
    using Split_slash_not_Nil [of "Path v"] by (cases "Split_slash (Path v)") auto
  show ?thesis
  proof (cases pathElements)
    case Nil
    then show ?thesis using assms False sp by (simp add: processMeta_def)
  next
    case (Cons folder below)
    let ?parent = "NavigationItem (nextUuid st) folder (ReplaceAll_underscore folder) []"
    obtain bottom u where c:
      "createNavItemTree below (NavItemRef ?parent []) (Suc (nextUuid st)) = (bottom, u)"
      by (cases "createNavItemTree below (NavItemRef ?parent []) (Suc (nextUuid st))") auto
    have "labelled (node bottom) \<and> (\<forall>p \<in> set (parents bottom). labelled p)"
      using createNavItemTree_labelled [OF c] by simp
    then have "labelled (findRoot (NavItemRef
        (setChildren (node bottom)
           (Children (node bottom) @
            [NavigationItem u (Name v) (ReplaceAll_underscore (Name v)) []]))
        (parents bottom)))"
      by (intro findRoot_labelled) simp_all
    then show ?thesis
      using assms False sp Cons c by (simp add: processMeta_def Let_def)
  qed
qed

lemma collectRoots_labelled:
  "\<forall>r \<in> set (rootNavigationItems (collectRoots markdownMetas)). labelled r"
proof -
  have "\<forall>r \<in> set (rootNavigationItems st). labelled r \<Longrightarrow>
        \<forall>r \<in> set (rootNavigationItems (foldl processMeta st vs)). labelled r" for st vs
  proof (induction vs arbitrary: st)
    case Nil
    then show ?case by simp
  next
    case (Cons a vs)
    have "\<forall>r \<in> set (rootNavigationItems (processMeta st a)). labelled r"
      using Cons.prems by (rule processMeta_labelled)
    then have "\<forall>r \<in> set (rootNavigationItems (foldl processMeta (processMeta st a) vs)).
        labelled r"
      by (rule Cons.IH)
    then show ?case by simp
  qed
  from this [of initialState markdownMetas] show ?thesis
    by (simp add: collectRoots_def initialState_def)
qed

lemma linkTwins_entries:
  "linkTwins self uuids m = (self', m') \<Longrightarrow> set m' \<subseteq> set m"
proof (induction self uuids m rule: linkTwins.induct)
  case (1 self trees)
  then show ?case by simp
next
  case (2 self uuid uuids trees)
  have "set (AList.delete (Href self, uuid) trees) \<subseteq> set trees"
    by (auto simp: AList.delete_eq)
  then show ?case using 2 by (auto split: if_splits option.splits)
qed

lemma set_update_subset: "set (AList.update k v m) \<subseteq> insert (k, v) (set m)"
  by (induction m) auto

lemma linkLoop_labelled:
  "\<forall>p \<in> set m. labelled (snd p) \<Longrightarrow> \<forall>s \<in> set ts. labelled s \<Longrightarrow>
   \<forall>p \<in> set (linkLoop ts m um). labelled (snd p)"
proof (induction ts arbitrary: m um)
  case Nil
  then show ?case by simp
next
  case (Cons self rest)
  show ?case
  proof (cases "map_of um (Href self)")
    case None
    then show ?thesis using Cons by simp
  next
    case (Some uuids)
    obtain self' m' where lt: "linkTwins self uuids m = (self', m')"
      by (cases "linkTwins self uuids m") auto
    have s: "labelled self'"
      using linkTwins_same [OF lt] Cons.prems(2) by (simp add: labelled_def)
    have "set (storeSelf self self' m') \<subseteq> insert ((Href self, Uuid self), self') (set m')"
      using set_update_subset [of "(Href self, Uuid self)" self' m']
      by (auto simp: storeSelf_def)
    then have "\<forall>p \<in> set (storeSelf self self' m'). labelled (snd p)"
      using s linkTwins_entries [OF lt] Cons.prems(1) by fastforce
    then have "\<forall>p \<in> set (linkLoop rest (storeSelf self self' m')
        (AList.delete (Href self) um)). labelled (snd p)"
      using Cons.prems(2) by (intro Cons.IH) simp_all
    then show ?thesis using Some lt by simp
  qed
qed

lemma SliceToMap_values: "snd ` set (SliceToMap ts) \<subseteq> set ts"
proof (induction ts rule: rev_induct)
  case Nil
  then show ?case by (simp add: SliceToMap_def)
next
  case (snoc x ts)
  then show ?case
    using set_update_subset [of "(Href x, Uuid x)" x "SliceToMap ts"]
    by (fastforce simp: SliceToMap_snoc)
qed

lemma mergeSameHref_labelled:
  assumes "\<forall>s \<in> set ts. labelled s"
  shows "\<forall>t \<in> set (mergeSameHref ts). labelled t"
proof -
  have "\<forall>p \<in> set (SliceToMap ts). labelled (snd p)"
    using assms SliceToMap_values [of ts] by auto
  then have "\<forall>p \<in> set (linkLoop ts (SliceToMap ts) (groupUuidsByHref ts)). labelled (snd p)"
    using assms by (rule linkLoop_labelled)
  then show ?thesis by (auto simp: mergeSameHref_def)
qed

lemma link_labelled:
  assumes "\<forall>s \<in> set ts. labelled s"
  shows "\<forall>t \<in> set (linkChildrenWithTheSameParent ts). labelled t"
proof (cases "ts = []")
  case True
  then show ?thesis by (simp add: link_Nil)
next
  case False
  then show ?thesis using mergeSameHref_labelled [OF assms] by (auto simp: link_nonempty)
qed

lemma sortedVisibleRoots_labelled:
  "r \<in> set (sortedVisibleRoots collationKey markdownMetas) \<Longrightarrow> labelled r"
  using link_labelled [OF collectRoots_labelled, of markdownMetas]
  by (simp add: set_sortedVisibleRoots mergedRoots_def)

lemma takeWhile_digits:
  assumes "\<forall>c \<in> set ds. isDigit c" and "\<not> isDigit sep"
  shows "takeWhile isDigit (ds @ sep # rest) = ds"
  using assms by (simp add: takeWhile_append2)

lemma ReplaceAll_underscore_digits:
  assumes "\<forall>c \<in> set ds. isDigit c"
  shows "ReplaceAll_underscore ds = ds"
proof -
  have "\<not> isDigit CHR ''_''" by (simp add: isDigit_def)
  then have "\<forall>c \<in> set ds. c \<noteq> CHR ''_''" using assms by blast
  then show ?thesis by (simp add: ReplaceAll_underscore_def map_idI)
qed

text \<open>
  C7. Take a root that reaches the normalizer with a numeric prefix (digits, then the
  separator) in its href and in its label. With children, href and label both lose their
  prefix; without children, the href stays and the label loses its prefix. No log entry is
  written. The returned forest consists of the roots so normalized.
\<close>

theorem numeric_prefix_stripped_from_roots:
  assumes "r \<in> set (sortedVisibleRoots collationKey markdownMetas)"
    and "Href r = ds @ ''_'' @ rest" and "ds \<noteq> []" and "\<forall>c \<in> set ds. isDigit c"
    and "Label r = ds' @ '' '' @ lrest" and "ds' \<noteq> []" and "\<forall>c \<in> set ds'. isDigit c"
  shows "removeNumberPrefixFromRoot r =
           (NavigationItem (Uuid r) (if Children r \<noteq> [] then rest else Href r) lrest
              (Children r), []) \<and>
         fst (removeNumberPrefixFromRoot r) \<in>
           set (BuildNavigationItemTrees collationKey markdownMetas)"
proof -
  have us: "\<not> isDigit CHR ''_''" and sp: "\<not> isDigit CHR '' ''"
    by (simp_all add: isDigit_def)
  have lab: "Label r = ReplaceAll_underscore (Href r)"
    using sortedVisibleRoots_labelled [OF assms(1)] by (simp add: labelled_def)
  have "Label r = ds @ '' '' @ ReplaceAll_underscore rest"
    unfolding lab assms(2)
    using ReplaceAll_underscore_digits [OF assms(4)] by (simp add: ReplaceAll_underscore_def)
  then have "takeWhile isDigit (Label r) = ds"
    using takeWhile_digits [OF assms(4) sp] by simp
  moreover have "takeWhile isDigit (Label r) = ds'"
    using takeWhile_digits [OF assms(7) sp] assms(5) by simp
  ultimately have same: "ds' = ds" by simp
  have fd: "FindDigits (Href r) = ds"
    using takeWhile_digits [OF assms(4) us] assms(2) by (simp add: FindDigits_def)
  have mh: "MatchDigits (Href r)"
    using assms(2,3,4) by (cases ds) (simp_all add: MatchDigits_def)
  have ml: "MatchDigits (Label r)"
    using assms(5,6,7) by (cases ds') (simp_all add: MatchDigits_def)
  have th: "TrimPrefix (Href r) (ds @ ''_'') = rest"
    using assms(2) by (simp add: TrimPrefix_def HasPrefix_def)
  have tl: "TrimPrefix (Label r) (ds @ '' '') = lrest"
    using assms(5) same by (simp add: TrimPrefix_def HasPrefix_def)
  have one: "removeNumberPrefixFromRoot r =
           (NavigationItem (Uuid r) (if Children r \<noteq> [] then rest else Href r) lrest
              (Children r), [])"
    using mh ml by (simp add: removeNumberPrefixFromRoot_def Let_def fd th tl)
  have "fst (removeNumberPrefixFromRoot r) \<in>
           set (BuildNavigationItemTrees collationKey markdownMetas)"
    using assms(1) by (simp add: BuildNavigationItemTrees_map)
  then show ?thesis using one by simp
qed

theorem numeric_prefix_stripped_from_roots_witness:
  "BuildNavigationItemTrees (\<lambda>s. s)
     [\<lparr>Name = ''File1'', Path = ''markdowns/1_Gateway''\<rparr>,
      \<lparr>Name = ''1_Standalone'', Path = ''markdowns''\<rparr>] =
     [NavigationItem 0 ''Gateway'' ''Gateway'' [NavigationItem 1 ''File1'' ''File1'' []],
      NavigationItem 2 ''1_Standalone'' ''Standalone'' []] \<and>
   removeNumberPrefixFromRoot
     (NavigationItem 0 ''1_Gateway'' ''1 Gateway'' [NavigationItem 1 ''File1'' ''File1'' []]) =
     (NavigationItem 0 ''Gateway'' ''Gateway'' [NavigationItem 1 ''File1'' ''File1'' []], []) \<and>
   removeNumberPrefixFromRoot (NavigationItem 2 ''1_Standalone'' ''1 Standalone'' []) =
     (NavigationItem 2 ''1_Standalone'' ''Standalone'' [], [])"
proof -
  let ?metas = "[\<lparr>Name = ''File1'', Path = ''markdowns/1_Gateway''\<rparr>,
      \<lparr>Name = ''1_Standalone'', Path = ''markdowns''\<rparr>]"
  let ?folder = "NavigationItem 0 ''1_Gateway'' ''1 Gateway''
      [NavigationItem 1 ''File1'' ''File1'' []]"
  let ?leaf = "NavigationItem 2 ''1_Standalone'' ''1 Standalone'' []"
  have roots: "sortedVisibleRoots (\<lambda>s. s) ?metas = [?folder, ?leaf]"
    by code_simp
  have d: "''1'' \<noteq> []" "\<forall>c \<in> set ''1''. isDigit c"
    by (simp_all add: isDigit_def)
  have m1: "?folder \<in> set (sortedVisibleRoots (\<lambda>s. s) ?metas)"
    unfolding roots by simp
  have m2: "?leaf \<in> set (sortedVisibleRoots (\<lambda>s. s) ?metas)"
    unfolding roots by simp
  have h1: "Href ?folder = ''1'' @ ''_'' @ ''Gateway''" "Label ?folder = ''1'' @ '' '' @ ''Gateway''"
    by simp_all
  have h2: "Href ?leaf = ''1'' @ ''_'' @ ''Standalone''"
    "Label ?leaf = ''1'' @ '' '' @ ''Standalone''"
    by simp_all
  have a: "removeNumberPrefixFromRoot ?folder =
      (NavigationItem 0 ''Gateway'' ''Gateway'' [NavigationItem 1 ''File1'' ''File1'' []], [])"
    using numeric_prefix_stripped_from_roots [OF m1 h1(1) d h1(2) d] by simp
  have b: "removeNumberPrefixFromRoot ?leaf =
      (NavigationItem 2 ''1_Standalone'' ''Standalone'' [], [])"
    using numeric_prefix_stripped_from_roots [OF m2 h2(1) d h2(2) d] by simp
  have c: "BuildNavigationItemTrees (\<lambda>s. s) ?metas =
     [NavigationItem 0 ''Gateway'' ''Gateway'' [NavigationItem 1 ''File1'' ''File1'' []],
      NavigationItem 2 ''1_Standalone'' ''Standalone'' []]"
    unfolding BuildNavigationItemTrees_map roots by (simp only: list.map a b fst_conv)
  show ?thesis using a b c by (intro conjI)
qed

subsection \<open>The merge: what one level computes\<close>

text \<open>
  On a slice whose nodes have distinct uuids, one level of the merge keeps, for every
  href, the first node with that href and gives it the children of all nodes with that
  href, in slice order.
\<close>

lemma linkTwins_result:
  assumes "\<forall>t \<in> set tw. Href t = Href self \<and> Uuid t \<noteq> Uuid self \<and>
             map_of m (Href t, Uuid t) = Some t"
    and "distinct (map Uuid tw)"
  shows "fst (linkTwins self (map Uuid tw) m) =
           setChildren self (Children self @ concat (map Children tw))"
  using assms
proof (induction tw arbitrary: self m)
  case Nil
  then show ?case by (cases self) (simp add: setChildren_def)
next
  case (Cons t tw)
  let ?s = "setChildren self (Children self @ Children t)"
  let ?m = "AList.delete (Href self, Uuid t) m"
  have t: "Href t = Href self" "Uuid t \<noteq> Uuid self" "map_of m (Href self, Uuid t) = Some t"
    using Cons.prems(1) by auto
  have "\<forall>x \<in> set tw. Href x = Href ?s \<and> Uuid x \<noteq> Uuid ?s \<and>
      map_of ?m (Href x, Uuid x) = Some x"
  proof
    fix x assume x: "x \<in> set tw"
    then have "Href x = Href self \<and> Uuid x \<noteq> Uuid self \<and>
        map_of m (Href x, Uuid x) = Some x"
      using Cons.prems(1) by (metis list.set_intros(2))
    then have a: "Href x = Href self" and b: "Uuid x \<noteq> Uuid self"
      and c: "map_of m (Href x, Uuid x) = Some x"
      by blast+
    have "Uuid t \<notin> Uuid ` set tw" using Cons.prems(2) by simp
    then have "Uuid x \<noteq> Uuid t" using x by (metis imageI)
    then have "map_of ?m (Href x, Uuid x) = Some x"
      using c by (simp add: AList.delete_conv')
    then show "Href x = Href ?s \<and> Uuid x \<noteq> Uuid ?s \<and>
      map_of ?m (Href x, Uuid x) = Some x"
      using a b by simp
  qed
  moreover have "distinct (map Uuid tw)" using Cons.prems(2) by simp
  ultimately have "fst (linkTwins ?s (map Uuid tw) ?m) =
      setChildren ?s (Children ?s @ concat (map Children tw))"
    by (rule Cons.IH)
  then show ?case using t by (simp add: setChildren_def)
qed

lemma linkTwins_skip_self:
  "linkTwins self (Uuid self # uuids) m = linkTwins self uuids m"
  by simp

lemma hrefGroup_first:
  assumes "ts = pre @ self # rest" and "Href self \<notin> Href ` set pre"
  shows "hrefGroup ts (Href self) = self # hrefGroup rest (Href self)"
proof -
  have "Href self \<notin> Href ` set xs \<Longrightarrow> filter (\<lambda>v. Href v = Href self) xs = []" for xs
    by (induction xs) auto
  then have "filter (\<lambda>v. Href v = Href self) pre = []"
    using assms(2) by blast
  then show ?thesis using assms(1) by (simp add: hrefGroup_def)
qed

lemma hrefGroup_member: "t \<in> set (hrefGroup ts h) \<longleftrightarrow> t \<in> set ts \<and> Href t = h"
  by (auto simp: hrefGroup_def)

lemma distinct_hrefGroup: "distinct (map Uuid ts) \<Longrightarrow> distinct (map Uuid (hrefGroup ts h))"
  by (simp add: hrefGroup_def distinct_map_filter)

lemma Uuid_inj:
  "distinct (map Uuid ts) \<Longrightarrow> s \<in> set ts \<Longrightarrow> t \<in> set ts \<Longrightarrow> Uuid s = Uuid t \<Longrightarrow> s = t"
  by (meson distinct_map inj_onD)

lemma levelInv_skip:
  assumes "levelInv ts pre m um" and "Href self \<in> Href ` set pre"
  shows "map_of um (Href self) = None \<and> levelInv ts (pre @ [self]) m um"
proof -
  have "Href ` set (pre @ [self]) = Href ` set pre" using assms(2) by auto
  then show ?thesis using assms unfolding levelInv_def by simp
qed

lemma levelInv_merge:
  assumes d: "distinct (map Uuid ts)" and ts: "ts = pre @ self # rest"
    and inv: "levelInv ts pre m um" and new: "Href self \<notin> Href ` set pre"
    and lt: "linkTwins self (map Uuid (hrefGroup ts (Href self))) m = (self', m')"
  shows "map_of um (Href self) = Some (map Uuid (hrefGroup ts (Href self)))"
    and "levelInv ts (pre @ [self]) (storeSelf self self' m') (AList.delete (Href self) um)"
proof -
  let ?h = "Href self" and ?key = "\<lambda>s. (Href s, Uuid s)"
  let ?tw = "hrefGroup rest ?h"
  let ?m = "storeSelf self self' m'" and ?um = "AList.delete ?h um"
  have U: "\<And>h. map_of um h =
      (if h \<in> Href ` set ts \<and> h \<notin> Href ` set pre
       then Some (map Uuid (hrefGroup ts h)) else None)"
    and M: "\<And>s. s \<in> set ts \<Longrightarrow> map_of m (?key s) =
      (if Href s \<in> Href ` set pre
       then (if hd (hrefGroup ts (Href s)) = s then Some (mergedNode ts s) else None)
       else Some s)"
    and D: "\<And>k v. map_of m k = Some v \<Longrightarrow> k \<in> ?key ` set ts"
    using inv unfolding levelInv_def by blast+
  have self_in: "self \<in> set ts" using ts by simp
  have grp: "hrefGroup ts ?h = self # ?tw" using ts new by (rule hrefGroup_first)
  show um_self: "map_of um ?h = Some (map Uuid (hrefGroup ts ?h))"
    using U [of ?h] self_in new by simp
  have tw_in: "t \<in> set ts \<and> Href t = ?h \<and> t \<noteq> self" if "t \<in> set ?tw" for t
  proof -
    have "t \<in> set rest" "Href t = ?h" using that by (simp_all add: hrefGroup_member)
    moreover have "self \<notin> set rest"
      using d ts by (auto simp: distinct_map)
    ultimately show ?thesis using ts by auto
  qed
  have tw_uuid: "Uuid t \<noteq> Uuid self" if "t \<in> set ?tw" for t
    using tw_in [OF that] Uuid_inj [OF d _ self_in, of t] by blast
  have tw_stored: "map_of m (?h, Uuid t) = Some t" if "t \<in> set ?tw" for t
    using M [of t] tw_in [OF that] new by simp
  have dtw: "distinct (map Uuid ?tw)"
  proof -
    have "distinct (map Uuid rest)" using d ts by simp
    then show ?thesis by (rule distinct_hrefGroup)
  qed
  have lt': "linkTwins self (map Uuid ?tw) m = (self', m')"
    using lt grp by simp
  have "\<forall>t \<in> set ?tw. Href t = Href self \<and> Uuid t \<noteq> Uuid self \<and>
      map_of m (Href t, Uuid t) = Some t"
    using tw_in tw_uuid tw_stored by simp
  then have "fst (linkTwins self (map Uuid ?tw) m) =
      setChildren self (Children self @ concat (map Children ?tw))"
    using dtw by (rule linkTwins_result)
  then have self': "self' = mergedNode ts self"
    using lt' grp by (simp add: mergedNode_def)
  have tk: "twinKeys self (map Uuid ?tw) = ?key ` set ?tw"
  proof
    show "twinKeys self (map Uuid ?tw) \<subseteq> ?key ` set ?tw"
    proof
      fix k assume "k \<in> twinKeys self (map Uuid ?tw)"
      then obtain t where t: "t \<in> set ?tw" "k = (?h, Uuid t)"
        by (auto simp: twinKeys_def)
      then have "k = (Href t, Uuid t)" using tw_in [of t] by simp
      then show "k \<in> ?key ` set ?tw" using t(1) by (rule image_eqI)
    qed
  next
    show "?key ` set ?tw \<subseteq> twinKeys self (map Uuid ?tw)"
    proof
      fix k assume "k \<in> ?key ` set ?tw"
      then obtain t where t: "t \<in> set ?tw" "k = (Href t, Uuid t)" by blast
      then show "k \<in> twinKeys self (map Uuid ?tw)"
        using tw_in [of t] tw_uuid [of t] by (auto simp: twinKeys_def)
    qed
  qed
  have mo: "map_of m' k = (if k \<in> ?key ` set ?tw then None else map_of m k)" for k
    using linkTwins_map_of [OF lt'] tk by simp
  have self_key: "?key self \<notin> ?key ` set ?tw"
  proof
    assume "?key self \<in> ?key ` set ?tw"
    then obtain t where t: "t \<in> set ?tw" and "?key self = ?key t" by (rule imageE)
    then have "Uuid t = Uuid self" by simp
    then show False using tw_uuid [OF t] by simp
  qed
  have "map_of m' (?key self) = Some self"
    using mo [of "?key self"] self_key M [OF self_in] new by simp
  then have st: "map_of ?m k = (if k = ?key self then Some self' else map_of m' k)" for k
    by (simp add: storeSelf_map_of)
  have hs: "Href ` set (pre @ [self]) = insert ?h (Href ` set pre)" by auto
  have U': "map_of ?um h =
      (if h \<in> Href ` set ts \<and> h \<notin> Href ` set (pre @ [self])
       then Some (map Uuid (hrefGroup ts h)) else None)" for h
    unfolding hs using U [of h] by (simp add: AList.delete_conv')
  have M': "map_of ?m (?key s) =
      (if Href s \<in> Href ` set (pre @ [self])
       then (if hd (hrefGroup ts (Href s)) = s then Some (mergedNode ts s) else None)
       else Some s)" if s: "s \<in> set ts" for s
  proof (cases "Href s = ?h")
    case True
    show ?thesis
    proof (cases "s = self")
      case True
      then show ?thesis unfolding hs st by (simp add: self' grp)
    next
      case False
      then have "s \<in> set ?tw"
        using s True grp hrefGroup_member [of s ts ?h] by simp
      then have b: "?key s \<in> ?key ` set ?tw" by (rule imageI)
      have "Uuid s \<noteq> Uuid self"
        using False Uuid_inj [OF d s self_in] by blast
      then have "map_of ?m (?key s) = map_of m' (?key s)"
        unfolding st by simp
      also have "\<dots> = None"
        unfolding mo using b by simp
      finally show ?thesis unfolding hs using True False grp by simp
    qed
  next
    case False
    then have a: "?key s \<notin> ?key ` set ?tw" using tw_in by force
    have "map_of ?m (?key s) = map_of m' (?key s)"
      unfolding st using False by simp
    also have "\<dots> = map_of m (?key s)"
      unfolding mo using a by simp
    finally show ?thesis unfolding hs using M [OF s] False by simp
  qed
  have D': "k \<in> ?key ` set ts" if "map_of ?m k = Some v" for k v
  proof (cases "k = ?key self")
    case True
    then show ?thesis using self_in by blast
  next
    case False
    then have "map_of m k = Some v"
      using that unfolding st mo by (simp split: if_splits)
    then show ?thesis by (rule D)
  qed
  show "levelInv ts (pre @ [self]) ?m ?um"
    unfolding levelInv_def using U' M' D' by blast
qed

lemma linkLoop_levelInv:
  assumes d: "distinct (map Uuid ts)"
  shows "ts = pre @ rest \<Longrightarrow> levelInv ts pre m um \<Longrightarrow>
         \<exists>um'. levelInv ts ts (linkLoop rest m um) um'"
proof (induction rest arbitrary: pre m um)
  case Nil
  then show ?case by auto
next
  case (Cons self rest)
  have ts': "ts = (pre @ [self]) @ rest" using Cons.prems(1) by simp
  show ?case
  proof (cases "Href self \<in> Href ` set pre")
    case True
    have "map_of um (Href self) = None" and "levelInv ts (pre @ [self]) m um"
      using levelInv_skip [OF Cons.prems(2) True] by simp_all
    then show ?thesis using Cons.IH [OF ts'] by simp
  next
    case False
    obtain self' m' where
      lt: "linkTwins self (map Uuid (hrefGroup ts (Href self))) m = (self', m')"
      by (cases "linkTwins self (map Uuid (hrefGroup ts (Href self))) m") auto
    have "map_of um (Href self) = Some (map Uuid (hrefGroup ts (Href self)))"
      and "levelInv ts (pre @ [self]) (storeSelf self self' m') (AList.delete (Href self) um)"
      using levelInv_merge [OF d Cons.prems(1) Cons.prems(2) False lt] by simp_all
    then show ?thesis using Cons.IH [OF ts'] lt by simp
  qed
qed

lemma hrefGroup_snoc:
  "hrefGroup (ts @ [x]) h = (if Href x = h then hrefGroup ts h @ [x] else hrefGroup ts h)"
  by (simp add: hrefGroup_def)

lemma hrefGroup_empty: "h \<notin> Href ` set ts \<Longrightarrow> hrefGroup ts h = []"
  by (induction ts) (auto simp: hrefGroup_def)

lemma groupUuidsByHref_map_of:
  "map_of (groupUuidsByHref ts) h =
     (if h \<in> Href ` set ts then Some (map Uuid (hrefGroup ts h)) else None)"
proof (induction ts rule: rev_induct)
  case Nil
  then show ?case by (simp add: groupUuidsByHref_def)
next
  case (snoc x ts)
  show ?case
  proof (cases "Href x = h")
    case True
    then show ?thesis
      using snoc hrefGroup_empty [of h ts]
      by (simp add: groupUuidsByHref_snoc hrefGroup_snoc)
  next
    case False
    then show ?thesis
      using snoc by (auto simp: groupUuidsByHref_snoc hrefGroup_snoc)
  qed
qed

lemma SliceToMap_stored:
  "distinct (map Uuid ts) \<Longrightarrow> s \<in> set ts \<Longrightarrow>
   map_of (SliceToMap ts) (Href s, Uuid s) = Some s"
proof (induction ts rule: rev_induct)
  case Nil
  then show ?case by simp
next
  case (snoc x ts)
  show ?case
  proof (cases "s = x")
    case True
    then show ?thesis by (simp add: SliceToMap_snoc AList.update_conv')
  next
    case False
    then have s: "s \<in> set ts" using snoc.prems(2) by simp
    have "Uuid x \<notin> Uuid ` set ts" using snoc.prems(1) by simp
    then have "Uuid s \<noteq> Uuid x" using s by (metis imageI)
    moreover have "map_of (SliceToMap ts) (Href s, Uuid s) = Some s"
      using snoc.IH snoc.prems(1) s by simp
    ultimately show ?thesis by (simp add: SliceToMap_snoc AList.update_conv')
  qed
qed

lemma levelInv_initial:
  assumes "distinct (map Uuid ts)"
  shows "levelInv ts [] (SliceToMap ts) (groupUuidsByHref ts)"
proof -
  have "k \<in> (\<lambda>s. (Href s, Uuid s)) ` set ts" if "map_of (SliceToMap ts) k = Some v" for k v
  proof -
    obtain h u where k: "k = (h, u)" by (cases k) auto
    then have "v \<in> set ts \<and> Href v = h \<and> Uuid v = u"
      using that SliceToMap_entry by blast
    then show ?thesis using k by force
  qed
  then show ?thesis
    unfolding levelInv_def
    using SliceToMap_stored [OF assms] groupUuidsByHref_map_of [of ts] by auto
qed

lemma linkLoop_keys_distinct:
  "distinct (map fst m) \<Longrightarrow> distinct (map fst (linkLoop ts m um))"
proof (induction ts arbitrary: m um)
  case Nil
  then show ?case by simp
next
  case (Cons self rest)
  show ?case
  proof (cases "map_of um (Href self)")
    case None
    then show ?thesis using Cons by simp
  next
    case (Some uuids)
    obtain self' m' where lt: "linkTwins self uuids m = (self', m')"
      by (cases "linkTwins self uuids m") auto
    have "distinct (map fst (storeSelf self self' m'))"
      using linkTwins_distinct [OF lt Cons.prems] by (rule storeSelf_distinct)
    then show ?thesis using Cons.IH Some lt by simp
  qed
qed

text \<open>
  The nodes that one level of the merge returns: for every node that is the first of its
  href in the slice, that node with the children of its whole group.
\<close>

lemma mergeSameHref_set:
  assumes "distinct (map Uuid ts)"
  shows "set (mergeSameHref ts) =
           {mergedNode ts s | s. s \<in> set ts \<and> hd (hrefGroup ts (Href s)) = s}"
proof -
  let ?m = "linkLoop ts (SliceToMap ts) (groupUuidsByHref ts)"
  obtain um' where inv: "levelInv ts ts ?m um'"
    using linkLoop_levelInv [OF assms, of "[]" ts] levelInv_initial [OF assms] by auto
  have M: "\<And>s. s \<in> set ts \<Longrightarrow> map_of ?m (Href s, Uuid s) =
      (if hd (hrefGroup ts (Href s)) = s then Some (mergedNode ts s) else None)"
    and D: "\<And>k v. map_of ?m k = Some v \<Longrightarrow> k \<in> (\<lambda>s. (Href s, Uuid s)) ` set ts"
    using inv unfolding levelInv_def by auto
  have dk: "distinct (map fst ?m)"
    using SliceToMap_distinct by (rule linkLoop_keys_distinct)
  have "set (mergeSameHref ts) = snd ` set ?m"
    by (simp add: mergeSameHref_def)
  also have "\<dots> = {mergedNode ts s | s. s \<in> set ts \<and> hd (hrefGroup ts (Href s)) = s}"
  proof (intro set_eqI iffI)
    fix v assume "v \<in> snd ` set ?m"
    then obtain k where "(k, v) \<in> set ?m" by auto
    then have kv: "map_of ?m k = Some v" using dk by simp
    then obtain s where s: "s \<in> set ts" "k = (Href s, Uuid s)" using D by blast
    then have "hd (hrefGroup ts (Href s)) = s \<and> v = mergedNode ts s"
      using M [OF s(1)] kv by (simp split: if_splits)
    then show "v \<in> {mergedNode ts s | s. s \<in> set ts \<and> hd (hrefGroup ts (Href s)) = s}"
      using s(1) by blast
  next
    fix v assume "v \<in> {mergedNode ts s | s. s \<in> set ts \<and> hd (hrefGroup ts (Href s)) = s}"
    then obtain s where s: "s \<in> set ts" "hd (hrefGroup ts (Href s)) = s" "v = mergedNode ts s"
      by blast
    then have "map_of ?m (Href s, Uuid s) = Some v" using M [OF s(1)] by simp
    then have "((Href s, Uuid s), v) \<in> set ?m" by (rule map_of_SomeD)
    then show "v \<in> snd ` set ?m" by force
  qed
  finally show ?thesis .
qed

text \<open>
  The roots that the loop over the records collects have distinct uuids: each root takes
  the counter's value when its record is processed, and the counter only grows.
\<close>

lemma createNavItemTree_last:
  "createNavItemTree ps navItem u = (bottom, u') \<Longrightarrow>
   last (node bottom # parents bottom) = last (node navItem # parents navItem) \<and> u \<le> u'"
proof (induction ps navItem u rule: createNavItemTree.induct)
  case (1 navItem u)
  then show ?case by simp
next
  case (2 p ps navItem u)
  then show ?case by fastforce
qed

lemma findRoot_Uuid: "Uuid (findRoot navItem) = Uuid (last (node navItem # parents navItem))"
  by (induction navItem rule: findRoot.induct) auto

lemma processMeta_fresh:
  assumes "\<forall>r \<in> set (rootNavigationItems st). Uuid r < nextUuid st"
    and "distinct (map Uuid (rootNavigationItems st))"
  shows "(\<forall>r \<in> set (rootNavigationItems (processMeta st v)). Uuid r < nextUuid (processMeta st v)) \<and>
         distinct (map Uuid (rootNavigationItems (processMeta st v)))"
proof (cases "Path v = []")
  case True
  then show ?thesis using assms by (simp add: processMeta_def)
next
  case False
  obtain first pathElements where sp: "Split_slash (Path v) = first # pathElements"
    using Split_slash_not_Nil [of "Path v"] by (cases "Split_slash (Path v)") auto
  show ?thesis
  proof (cases pathElements)
    case Nil
    then show ?thesis using assms False sp by (auto simp: processMeta_def)
  next
    case (Cons folder below)
    let ?parent = "NavigationItem (nextUuid st) folder (ReplaceAll_underscore folder) []"
    obtain bottom u where c:
      "createNavItemTree below (NavItemRef ?parent []) (Suc (nextUuid st)) = (bottom, u)"
      by (cases "createNavItemTree below (NavItemRef ?parent []) (Suc (nextUuid st))") auto
    let ?root = "findRoot (NavItemRef
        (setChildren (node bottom)
           (Children (node bottom) @
            [NavigationItem u (Name v) (ReplaceAll_underscore (Name v)) []]))
        (parents bottom))"
    have l: "last (node bottom # parents bottom) = ?parent" and le: "Suc (nextUuid st) \<le> u"
      using createNavItemTree_last [OF c] by simp_all
    have "Uuid ?root = Uuid (last (setChildren (node bottom)
           (Children (node bottom) @
            [NavigationItem u (Name v) (ReplaceAll_underscore (Name v)) []]) # parents bottom))"
      by (simp add: findRoot_Uuid)
    also have "\<dots> = Uuid (last (node bottom # parents bottom))"
      by (cases "parents bottom") simp_all
    finally have ur: "Uuid ?root = nextUuid st" using l by simp
    have step: "processMeta st v =
        (if HasPrefix first ''markdowns''
         then st\<lparr>rootNavigationItems := rootNavigationItems st @ [?root], nextUuid := Suc u\<rparr>
         else st)"
      using False sp Cons c by (simp add: processMeta_def Let_def)
    show ?thesis
    proof (cases "HasPrefix first ''markdowns''")
      case True
      have "nextUuid st \<notin> Uuid ` set (rootNavigationItems st)"
        using assms(1) by fastforce
      then show ?thesis using True step ur le assms by (auto simp: less_Suc_eq_le)
    next
      case False
      then show ?thesis using step assms by simp
    qed
  qed
qed

lemma collectRoots_distinct_Uuid:
  "distinct (map Uuid (rootNavigationItems (collectRoots markdownMetas)))"
proof -
  have "(\<forall>r \<in> set (rootNavigationItems st). Uuid r < nextUuid st) \<and>
        distinct (map Uuid (rootNavigationItems st)) \<Longrightarrow>
        distinct (map Uuid (rootNavigationItems (foldl processMeta st vs)))" for st vs
  proof (induction vs arbitrary: st)
    case Nil
    then show ?case by simp
  next
    case (Cons a vs)
    have "(\<forall>r \<in> set (rootNavigationItems (processMeta st a)).
             Uuid r < nextUuid (processMeta st a)) \<and>
          distinct (map Uuid (rootNavigationItems (processMeta st a)))"
      using Cons.prems by (intro processMeta_fresh) simp_all
    then have "distinct (map Uuid (rootNavigationItems (foldl processMeta (processMeta st a) vs)))"
      by (rule Cons.IH)
    then show ?case by simp
  qed
  from this [of initialState markdownMetas] show ?thesis
    by (simp add: collectRoots_def initialState_def)
qed

text \<open>
  So the merge pass of \<^verbatim>\<open>BuildNavigationItemTrees\<close> leaves, for every href among the
  collected roots, the first root with that href; its children are the merged children
  of all collected roots with that href.
\<close>

lemma mergedRoots_groups:
  "set (mergedRoots markdownMetas) =
     {setChildren s (linkChildrenWithTheSameParent
        (concat (map Children
           (hrefGroup (rootNavigationItems (collectRoots markdownMetas)) (Href s))))) | s.
      s \<in> set (rootNavigationItems (collectRoots markdownMetas)) \<and>
      hd (hrefGroup (rootNavigationItems (collectRoots markdownMetas)) (Href s)) = s}"
proof (cases "rootNavigationItems (collectRoots markdownMetas) = []")
  case True
  then show ?thesis by (simp add: mergedRoots_def link_Nil)
next
  case False
  let ?ts = "rootNavigationItems (collectRoots markdownMetas)"
  let ?f = "\<lambda>t. setChildren t (linkChildrenWithTheSameParent (Children t))"
  have f: "?f (mergedNode ?ts s) =
      setChildren s (linkChildrenWithTheSameParent
        (concat (map Children (hrefGroup ?ts (Href s)))))" for s
    by (simp add: mergedNode_def setChildren_def)
  have "set (mergedRoots markdownMetas) = ?f ` set (mergeSameHref ?ts)"
    using False by (simp add: mergedRoots_def link_nonempty)
  also have "\<dots> = ?f ` {mergedNode ?ts s | s. s \<in> set ?ts \<and> hd (hrefGroup ?ts (Href s)) = s}"
    using mergeSameHref_set [OF collectRoots_distinct_Uuid] by simp
  also have "\<dots> = {?f (mergedNode ?ts s) | s. s \<in> set ?ts \<and> hd (hrefGroup ?ts (Href s)) = s}"
    by blast
  finally show ?thesis unfolding f .
qed

end
